theory Spec2Isabelle
  imports Main
begin

section \<open>Strings and regular expressions of the host language\<close>

text \<open>
  Strings are lists of code units; the code units of this development are those below
  \<open>U+0100\<close> (the type \<open>char\<close>), so that it speaks of the strings of the program
  written in ASCII and Latin-1. The operations below are the string methods the
  sources call: \<open>startsWith\<close>, \<open>includes\<close>, \<open>split\<close> with a string separator,
  \<open>join\<close>, \<open>trim\<close> and \<open>toLowerCase\<close>.
\<close>

fun startsWith :: "string \<Rightarrow> string \<Rightarrow> bool" where
  "startsWith s [] = True"
| "startsWith [] (p # ps) = False"
| "startsWith (c # cs) (p # ps) = (c = p \<and> startsWith cs ps)"

fun includes_str :: "string \<Rightarrow> string \<Rightarrow> bool" where
  "includes_str [] p = (p = [])"
| "includes_str (c # cs) p = (startsWith (c # cs) p \<or> includes_str cs p)"

text \<open>
  \<open>s.split(sep)\<close>: an empty separator cuts between all code units; otherwise the
  occurrences of the separator are found from left to right, without overlap.
\<close>

fun split_from :: "string \<Rightarrow> string \<Rightarrow> string \<Rightarrow> string list" where
  "split_from sep acc [] = [acc]"
| "split_from sep acc (c # cs) =
     (if startsWith (c # cs) sep
      then acc # split_from sep [] (drop (length sep - 1) cs)
      else split_from sep (acc @ [c]) cs)"

definition split_str :: "string \<Rightarrow> string \<Rightarrow> string list" where
  "split_str s sep = (if sep = [] then map (\<lambda>c. [c]) s else split_from sep [] s)"

fun join_str :: "string \<Rightarrow> string list \<Rightarrow> string" where
  "join_str sep [] = []"
| "join_str sep [x] = x"
| "join_str sep (x # y # ys) = x @ sep @ join_str sep (y # ys)"

text \<open>
  White space as \<open>trim\<close> and the class \<open>\s\<close> see it: tab, line feed, vertical tab,
  form feed, carriage return, space and no-break space.
\<close>

definition ws_chars :: string where
  "ws_chars = [CHR 0x09, CHR 0x0A, CHR 0x0B, CHR 0x0C, CHR 0x0D, CHR 0x20, CHR 0xA0]"

definition trim :: "string \<Rightarrow> string" where
  "trim s = rev (dropWhile (\<lambda>c. c \<in> set ws_chars) (rev (dropWhile (\<lambda>c. c \<in> set ws_chars) s)))"

text \<open>
  Case folding of the \<open>i\<close> flag and of \<open>toLowerCase\<close>. Among the code units below
  \<open>U+0100\<close> the small letters that have a capital in the same
  range are \<open>a\<close> to \<open>z\<close> (\<open>011x xxxx\<close> with low five bits 1 to 26) and the Latin-1
  letters \<open>U+00E0\<close> to \<open>U+00FE\<close> without the division sign \<open>U+00F7\<close> (\<open>111x xxxx\<close>
  with low five bits other than \<open>1x111\<close>); the capital clears bit 5. The \<open>i\<close> flag
  compares the capitals (\<open>canon\<close>), \<open>toLowerCase\<close> sets bit 5 of a capital. The micro
  sign and \<open>U+00FF\<close> have their capitals above \<open>U+00FF\<close>, where no other code unit of
  the range is folded to, and the sharp s has none: within the range each equals only
  itself under the flag and is left alone.
\<close>

fun is_small :: "char \<Rightarrow> bool" where
  "is_small (Char b0 b1 b2 b3 b4 b5 b6 b7) =
     (b5 \<and> b6 \<and>
      (if b7 then \<not> (b0 \<and> b1 \<and> b2 \<and> b4)
       else (b0 \<or> b1 \<or> b2 \<or> b3 \<or> b4) \<and> \<not> (b3 \<and> b4 \<and> (b2 \<or> b0 \<and> b1))))"

fun canon :: "char \<Rightarrow> char" where
  "canon (Char b0 b1 b2 b3 b4 b5 b6 b7) =
     (if is_small (Char b0 b1 b2 b3 b4 b5 b6 b7)
      then Char b0 b1 b2 b3 b4 False b6 b7 else Char b0 b1 b2 b3 b4 b5 b6 b7)"

fun lower_char :: "char \<Rightarrow> char" where
  "lower_char (Char b0 b1 b2 b3 b4 b5 b6 b7) =
     (if is_small (Char b0 b1 b2 b3 b4 True b6 b7)
      then Char b0 b1 b2 b3 b4 True b6 b7 else Char b0 b1 b2 b3 b4 b5 b6 b7)"

definition toLowerCase :: "string \<Rightarrow> string" where
  "toLowerCase s = map lower_char s"

fun startsWith_ci :: "string \<Rightarrow> string \<Rightarrow> bool" where
  "startsWith_ci s [] = True"
| "startsWith_ci [] (p # ps) = False"
| "startsWith_ci (c # cs) (p # ps) = (canon c = canon p \<and> startsWith_ci cs ps)"

fun includes_ci :: "string \<Rightarrow> string \<Rightarrow> bool" where
  "includes_ci [] p = (p = [])"
| "includes_ci (c # cs) p = (startsWith_ci (c # cs) p \<or> includes_ci cs p)"

text \<open>
  The regular expressions of the sources are sequences of four kinds of item: a literal,
  a choice between literals \<open>(?:a|b)\<close>, one code unit of a class, and a class repeated
  greedily at least \<open>n\<close> times (\<open>*\<close> is \<open>Many c 0\<close>, \<open>+\<close> is \<open>Many c 1\<close>). A class is a
  set \<open>[...]\<close> or its complement \<open>[^...]\<close>. An address spliced into an expression
  through \<open>escapeRegExp\<close> is a literal. Under the \<open>i\<close> flag a literal is compared
  after case folding; the classes of the expressions that carry the flag hold no letters
  (quotes, white space, \<open>>\<close>) and are compared as they are.
\<close>

datatype cls = OneOf string | NoneOf string

fun in_cls :: "cls \<Rightarrow> char \<Rightarrow> bool" where
  "in_cls (OneOf cs) c = (c \<in> set cs)"
| "in_cls (NoneOf cs) c = (c \<notin> set cs)"

datatype item = Lit string | Alt "string list" | One cls | Many cls nat

definition lit_match :: "bool \<Rightarrow> string \<Rightarrow> string \<Rightarrow> bool" where
  "lit_match ci l s = (if ci then startsWith_ci s l else startsWith s l)"

text \<open>
  Backtracking: \<open>first_down f lo k\<close> tries the repetition counts \<open>k\<close>, \<open>k - 1\<close>, ...,
  \<open>lo\<close> and keeps the first that lets the rest of the expression match;
  \<open>first_of\<close> tries the alternatives from left to right.
\<close>

fun first_down :: "(nat \<Rightarrow> 'a option) \<Rightarrow> nat \<Rightarrow> nat \<Rightarrow> 'a option" where
  "first_down f lo 0 = (if 0 < lo then None else f 0)"
| "first_down f lo (Suc k) =
     (if Suc k < lo then None
      else case f (Suc k) of Some r \<Rightarrow> Some r | None \<Rightarrow> first_down f lo k)"

fun first_of :: "('a \<Rightarrow> 'b option) \<Rightarrow> 'a list \<Rightarrow> 'b option" where
  "first_of f [] = None"
| "first_of f (x # xs) = (case f x of Some r \<Rightarrow> Some r | None \<Rightarrow> first_of f xs)"

text \<open>
  \<open>match_items ci p s\<close> matches the expression \<open>p\<close> at the start of \<open>s\<close> (\<open>ci\<close> is the
  \<open>i\<close> flag) and returns the text each item matched, in order: the captures of the
  source are read off this list.
\<close>

fun match_items :: "bool \<Rightarrow> item list \<Rightarrow> string \<Rightarrow> string list option" where
  "match_items ci [] s = Some []"
| "match_items ci (Lit l # p) s =
     (if lit_match ci l s
      then map_option ((#) (take (length l) s)) (match_items ci p (drop (length l) s))
      else None)"
| "match_items ci (Alt ls # p) s =
     first_of (\<lambda>l. if lit_match ci l s
                    then map_option ((#) (take (length l) s))
                           (match_items ci p (drop (length l) s))
                    else None) ls"
| "match_items ci (One c # p) s =
     (case s of [] \<Rightarrow> None
      | x # xs \<Rightarrow> if in_cls c x then map_option ((#) [x]) (match_items ci p xs) else None)"
| "match_items ci (Many c n # p) s =
     first_down (\<lambda>k. map_option ((#) (take k s)) (match_items ci p (drop k s)))
       n (length (takeWhile (in_cls c) s))"

text \<open>\<open>RegExp.test\<close> on a fresh expression: is there a match at some position?\<close>

fun regex_test :: "bool \<Rightarrow> item list \<Rightarrow> string \<Rightarrow> bool" where
  "regex_test ci p [] = (match_items ci p [] \<noteq> None)"
| "regex_test ci p (c # cs) = (match_items ci p (c # cs) \<noteq> None \<or> regex_test ci p cs)"

text \<open>\<open>String.match\<close> without the \<open>g\<close> flag: the leftmost match.\<close>

fun regex_exec :: "bool \<Rightarrow> item list \<Rightarrow> string \<Rightarrow> string list option" where
  "regex_exec ci p [] = match_items ci p []"
| "regex_exec ci p (c # cs) =
     (case match_items ci p (c # cs) of Some ps \<Rightarrow> Some ps | None \<Rightarrow> regex_exec ci p cs)"

text \<open>
  \<open>String.replace\<close> with the \<open>g\<close> flag and a replacement function: the matches are
  found from left to right, each search starting where the previous match ended (one
  code unit further after an empty match).
\<close>

fun regex_replace :: "bool \<Rightarrow> item list \<Rightarrow> (string list \<Rightarrow> string) \<Rightarrow> string \<Rightarrow> string" where
  "regex_replace ci p f [] = (case match_items ci p [] of Some ps \<Rightarrow> f ps | None \<Rightarrow> [])"
| "regex_replace ci p f (c # cs) =
     (case match_items ci p (c # cs) of
        None \<Rightarrow> c # regex_replace ci p f cs
      | Some ps \<Rightarrow>
          f ps @ (if concat ps = [] then [c] else []) @
          regex_replace ci p f (drop (length (concat ps) - 1) cs))"

text \<open>
  The matches such a replacement hands to its function, in order (the matches of
  \<open>String.matchAll\<close>).
\<close>

fun regex_matches :: "bool \<Rightarrow> item list \<Rightarrow> string \<Rightarrow> string list list" where
  "regex_matches ci p [] = (case match_items ci p [] of Some ps \<Rightarrow> [ps] | None \<Rightarrow> [])"
| "regex_matches ci p (c # cs) =
     (case match_items ci p (c # cs) of
        None \<Rightarrow> regex_matches ci p cs
      | Some ps \<Rightarrow> ps # regex_matches ci p (drop (length (concat ps) - 1) cs))"

section \<open>Persisted upload state (src/features/storage/upload-state.ts)\<close>

text \<open>
  The interface \<open>UploadState\<close>. The two optional fields are options; indices, counts
  and the start time are natural numbers.
\<close>

record UploadState =
  isUploading :: bool
  currentIndex :: nat
  totalImages :: nat
  startTime :: nat
  documentId :: "string option"
  shouldStop :: "bool option"

text \<open>
  \<open>chrome.storage.local\<close>, as far as \<open>UploadStateStorage\<close> uses it: the value stored
  under \<open>STORAGE_KEY\<close>, and whether the platform's \<open>get\<close>, \<open>set\<close> and \<open>remove\<close>
  calls reject. A rejected call changes nothing; each method of the class catches the
  rejection and logs it.
\<close>

record chrome_storage =
  upload_slot :: "UploadState option"
  get_rejects :: bool
  set_rejects :: bool
  remove_rejects :: bool

definition getState :: "chrome_storage \<Rightarrow> UploadState option" where
  "getState st = (if get_rejects st then None else upload_slot st)"

definition setState :: "UploadState \<Rightarrow> chrome_storage \<Rightarrow> chrome_storage" where
  "setState s st = (if set_rejects st then st else st\<lparr>upload_slot := Some s\<rparr>)"

definition clearState :: "chrome_storage \<Rightarrow> chrome_storage" where
  "clearState st = (if remove_rejects st then st else st\<lparr>upload_slot := None\<rparr>)"

text \<open>
  \<open>requestStop\<close> and \<open>updateProgress\<close> are each a read (\<open>getState\<close>) followed by
  a write (\<open>setState\<close>) of the whole record. The two definitions give their effect when
  nothing else touches the storage between the read and the write; the section on the
  image pipeline has the two halves apart, for a stop request that arrives while the
  loop updates the progress.
\<close>

definition requestStop :: "chrome_storage \<Rightarrow> chrome_storage" where
  "requestStop st =
     (case getState st of
        None \<Rightarrow> st
      | Some s \<Rightarrow> if isUploading s then setState (s\<lparr>shouldStop := Some True\<rparr>) st else st)"

definition updateProgress :: "nat \<Rightarrow> nat \<Rightarrow> chrome_storage \<Rightarrow> chrome_storage" where
  "updateProgress i n st =
     (case getState st of
        None \<Rightarrow> st
      | Some s \<Rightarrow> setState (s\<lparr>currentIndex := i, totalImages := n\<rparr>) st)"

section \<open>Uploading one image (OutlineClient.uploadImage)\<close>

text \<open>
  What the outside world answers during one attempt: the \<open>fetch\<close> of the image (it
  rejects, or it gives a response with its \<open>ok\<close> flag, the size of the blob and the
  \<open>content-type\<close> header; a body that cannot be read counts as a rejection, both end
  in the inner \<open>catch\<close>), the reply to \<open>attachments.create\<close> and the reply to the
  upload request. An axios request rejects with the status of the response, if there was
  one, or resolves.

  The body of the reply to \<open>attachments.create\<close> is read field by field, and each
  field is read at its own place in the code: \<open>data\<close> (\<open>None\<close> when the body has none,
  so that \<open>data.form\<close> raises a TypeError), \<open>data.uploadUrl\<close> (\<open>None\<close> when it is
  missing or not a string, so that \<open>data.uploadUrl.startsWith\<close> raises), \<open>data.form\<close>
  (empty when missing), \<open>data.attachment\<close> with its \<open>id\<close> and its \<open>url\<close> (\<open>None\<close>
  when missing, so that \<open>data.attachment.url.startsWith\<close> raises).
\<close>

datatype download = DownloadRejects | Downloaded bool nat "string option"

datatype 'a axios_result = Rejects "nat option" | Resolves 'a

record attachment_fields =
  attachment_id :: "string option"
  attachment_url :: "string option"

record attachment_data =
  uploadUrl :: "string option"
  form :: "(string \<times> string) list"
  attachment :: "attachment_fields option"

record attempt_io =
  download :: download
  create_reply :: "attachment_data option axios_result"
  upload_reply :: "nat axios_result"

text \<open>
  The client: \<open>this.apiUrl\<close>, and the platform's \<open>atob\<close>, which gives the number of
  bytes it decodes or raises (\<open>None\<close>).
\<close>

record client =
  apiUrl :: string
  atob_length :: "string \<Rightarrow> nat option"

text \<open>
  What a \<open>catch\<close> block receives: a plain error, or an axios error with the status of
  the response it carries. \<open>response_status\<close> is \<open>error.response?.status\<close>.
\<close>

datatype error = Error | AxiosError "nat option"

fun response_status :: "error \<Rightarrow> nat option" where
  "response_status Error = None"
| "response_status (AxiosError st) = st"

definition clean_mime :: "string \<Rightarrow> string" where
  "clean_mime m = trim (takeWhile (\<lambda>c. c \<noteq> CHR '';'') m)"

text \<open>
  The parts of a data URL: \<open>const [header, base64Data] = imageUrl.split(',')\<close> (the
  payload is the text between the first and the second comma, and \<open>atob\<close> receives
  the string \<open>undefined\<close> when there is no comma), and the MIME type
  \<open>header.match(/data:([^;]+)/)?.[1] || 'image/png'\<close>.
\<close>

definition base64Data :: "string \<Rightarrow> string" where
  "base64Data imageUrl =
     (case split_str imageUrl '','' of _ # b # _ \<Rightarrow> b | _ \<Rightarrow> ''undefined'')"

definition dataUrlMime :: "string \<Rightarrow> string" where
  "dataUrlMime imageUrl =
     (let header = (case split_str imageUrl '','' of h # _ \<Rightarrow> h | [] \<Rightarrow> [])
      in case regex_exec False [Lit ''data:'', Many (NoneOf '';'') 1] header of
           Some [_, m] \<Rightarrow> m | _ \<Rightarrow> ''image/png'')"

text \<open>\<open>imageResponse.headers.get('content-type') || 'image/png'\<close>.\<close>

definition contentType :: "string option \<Rightarrow> string" where
  "contentType ct = (case ct of None \<Rightarrow> ''image/png''
                     | Some c \<Rightarrow> if c = [] then ''image/png'' else c)"

text \<open>
  The first part of the \<open>try\<close> block: the blob and its MIME type. A data URL is
  decoded. Any other address is fetched, and the inner \<open>catch\<close> returns the original
  address: \<open>Inl\<close> is this early \<open>return\<close>.
\<close>

definition obtain_blob :: "client \<Rightarrow> attempt_io \<Rightarrow> string \<Rightarrow> string + (error + nat \<times> string)" where
  "obtain_blob cl io imageUrl =
     (if startsWith imageUrl ''data:'' then
        (case atob_length cl (base64Data imageUrl) of
           None \<Rightarrow> Inr (Inl Error)
         | Some n \<Rightarrow> Inr (Inr (n, dataUrlMime imageUrl)))
      else
        (case download io of
           DownloadRejects \<Rightarrow> Inl imageUrl
         | Downloaded ok n ct \<Rightarrow>
             if \<not> ok then Inl imageUrl
             else Inr (Inr (n, clean_mime (contentType ct)))))"

text \<open>
  The address returned after an upload: \<open>data.attachment.url\<close>, with \<open>this.apiUrl\<close>
  in front of it unless it starts with \<open>http\<close>.
\<close>

definition fileUrl :: "client \<Rightarrow> string \<Rightarrow> string" where
  "fileUrl cl url = (if startsWith url ''http'' then url else apiUrl cl @ url)"

text \<open>
  The rest of the \<open>try\<close> block, in the order of the code: the size and type checks, the
  request \<open>attachments.create\<close>, the read of \<open>data\<close> and of \<open>data.uploadUrl\<close>, the
  upload request, the check of its status, and only then the read of
  \<open>data.attachment.url\<close>. \<open>Inl\<close> is a thrown error, \<open>Inr\<close> a returned address. The
  file name, the form fields and the headers of the upload request are computed without a
  throw and decide nothing here; they are left out.
\<close>

definition try_upload :: "client \<Rightarrow> attempt_io \<Rightarrow> string \<Rightarrow> error + string" where
  "try_upload cl io imageUrl =
     (case obtain_blob cl io imageUrl of
        Inl early \<Rightarrow> Inr early
      | Inr (Inl e) \<Rightarrow> Inl e
      | Inr (Inr (n, mimeType0)) \<Rightarrow>
          if 10 * 1024 * 1024 < n then Inl Error
          else let mimeType = clean_mime mimeType0 in
            if \<not> startsWith mimeType ''image/'' then Inl Error
            else case create_reply io of
                   Rejects st \<Rightarrow> Inl (AxiosError st)
                 | Resolves None \<Rightarrow> Inl Error
                 | Resolves (Some data) \<Rightarrow>
                     (case uploadUrl data of
                        None \<Rightarrow> Inl Error
                      | Some target \<Rightarrow>
                          (case upload_reply io of
                             Rejects st \<Rightarrow> Inl (AxiosError st)
                           | Resolves status \<Rightarrow>
                               if status \<noteq> 200 \<and> status \<noteq> 201 \<and> status \<noteq> 204
                               then Inl Error
                               else case attachment data of
                                      None \<Rightarrow> Inl Error
                                    | Some a \<Rightarrow>
                                        (case attachment_url a of
                                           None \<Rightarrow> Inl Error
                                         | Some url \<Rightarrow> Inr (fileUrl cl url)))))"

definition maxRetries :: nat where
  "maxRetries = 3"

text \<open>
  \<open>uploadImage\<close> with its \<open>catch\<close> block. The answers of attempt \<open>retryCount\<close> are
  \<open>io retryCount\<close>. \<open>Inr\<close> is the value the promise resolves with, together with the
  delays slept, in milliseconds and in order; \<open>Inl\<close> is a rejection of the promise. The
  \<open>catch\<close> block returns the promise of the recursive call, so that a rejection of
  that call would be a rejection of this one.
\<close>

function uploadImage ::
    "client \<Rightarrow> (nat \<Rightarrow> attempt_io) \<Rightarrow> string \<Rightarrow> nat \<Rightarrow> error + string \<times> nat list" where
  "uploadImage cl io imageUrl retryCount =
     (let retryDelay = 1000 * 2 ^ retryCount in
      case try_upload cl (io retryCount) imageUrl of
        Inr url \<Rightarrow> Inr (url, [])
      | Inl e \<Rightarrow>
          if response_status e = Some 401 then Inr (imageUrl, [])
          else if response_status e = Some 429 \<and> retryCount < maxRetries then
            (let backoffDelay = retryDelay * 2 ^ retryCount in
             case uploadImage cl io imageUrl (retryCount + 1) of
               Inl rejection \<Rightarrow> Inl rejection
             | Inr (url, delays) \<Rightarrow> Inr (url, backoffDelay # delays))
          else Inr (imageUrl, []))"
  by pat_completeness auto
termination
  by (relation "measure (\<lambda>(cl, io, imageUrl, retryCount). maxRetries - retryCount)") auto

declare uploadImage.simps [simp del]

text \<open>
  For the statements about \<open>uploadImage\<close>: the answers of an attempt that hosts
  the file at \<open>url\<close>. Both requests are answered well and the reply to the first names
  the hosted file.
\<close>

definition hosted_by :: "client \<Rightarrow> attempt_io \<Rightarrow> string \<Rightarrow> bool" where
  "hosted_by cl io url \<longleftrightarrow>
     (\<exists>d target status a h.
        create_reply io = Resolves (Some d) \<and> uploadUrl d = Some target \<and>
        upload_reply io = Resolves status \<and> (status = 200 \<or> status = 201 \<or> status = 204) \<and>
        attachment d = Some a \<and> attachment_url a = Some h \<and> url = fileUrl cl h)"

section \<open>The image pipeline (OutlineClient.processImagesInContent)\<close>

record ImageInfo =
  originalUrl :: string
  markdownUrl :: "string option"
  outlineUrl :: "string option"
  alt :: "string option"
  width :: "nat option"
  height :: "nat option"
  isContentImage :: "bool option"

text \<open>\<open>img.markdownUrl || img.originalUrl\<close>: an absent or empty \<open>markdownUrl\<close> is falsy.\<close>

definition urlToCheck :: "ImageInfo \<Rightarrow> string" where
  "urlToCheck img =
     (case markdownUrl img of
        None \<Rightarrow> originalUrl img
      | Some m \<Rightarrow> if m = [] then originalUrl img else m)"

definition quote_cls :: cls where
  "quote_cls = OneOf [CHR 0x22, CHR 0x27]"

definition space_cls :: cls where
  "space_cls = OneOf ws_chars"

text \<open>
  The expressions of the filter, built around the address \<open>u\<close>:
  \<^verbatim>\<open><img[^>]*\ssrc=["']u["'][^>]*>\<close>, \<^verbatim>\<open><img\s+src=["']u["'][^>]*>\<close> and
  \<^verbatim>\<open>src=["']u["']\<close> (all with the flags \<open>gi\<close>), and \<^verbatim>\<open>!\[[^\]]*\]\(u\)\<close> (flag \<open>g\<close>).
\<close>

definition htmlImgPattern1 :: "string \<Rightarrow> item list" where
  "htmlImgPattern1 u =
     [Lit ''<img'', Many (NoneOf ''>'') 0, One space_cls, Lit ''src='', One quote_cls, Lit u,
      One quote_cls, Many (NoneOf ''>'') 0, Lit ''>'']"

definition htmlImgPattern2 :: "string \<Rightarrow> item list" where
  "htmlImgPattern2 u =
     [Lit ''<img'', Many space_cls 1, Lit ''src='', One quote_cls, Lit u, One quote_cls,
      Many (NoneOf ''>'') 0, Lit ''>'']"

definition htmlImgPattern3 :: "string \<Rightarrow> item list" where
  "htmlImgPattern3 u = [Lit ''src='', One quote_cls, Lit u, One quote_cls]"

definition markdownPattern :: "string \<Rightarrow> item list" where
  "markdownPattern u = [Lit ''!['', Many (NoneOf '']'') 0, Lit (''](''  @ u @ '')'')]"

text \<open>The callback of \<open>images.filter\<close>: the three strategies, tried in this order.\<close>

definition isInContent :: "string \<Rightarrow> string \<Rightarrow> bool" where
  "isInContent content u =
     (if includes_str content u then True
      else if regex_test True (htmlImgPattern1 u) content \<or>
              regex_test True (htmlImgPattern2 u) content \<or>
              regex_test True (htmlImgPattern3 u) content then True
      else regex_test False (markdownPattern u) content)"

definition isGitHub :: "string \<Rightarrow> ImageInfo list \<Rightarrow> bool" where
  "isGitHub content images =
     (includes_str content ''github.com'' \<and>
      (\<exists>img \<in> set images. includes_str (originalUrl img) ''camo.githubusercontent.com''))"

text \<open>
  \<open>imagesToProcess\<close>: the filter is skipped for a GitHub page; \<open>maxImages\<close> is the
  number of images kept, or 150 when none is.
\<close>

definition imagesToProcess :: "string \<Rightarrow> ImageInfo list \<Rightarrow> ImageInfo list" where
  "imagesToProcess content images =
     (let contentImages = (if \<not> isGitHub content images
                           then filter (\<lambda>img. isInContent content (urlToCheck img)) images
                           else images);
          maxImages = (if length contentImages = 0 then 150 else length contentImages)
      in take maxImages contentImages)"

text \<open>
  The expressions of \<open>replaceImageUrlInContent\<close>: \<^verbatim>\<open>!\[([^\]]*)\]\(u\)\<close> (flag \<open>g\<close>),
  \<^verbatim>\<open>(<img[^>]*\ssrc=["'])u(["'][^>]*>)\<close> and \<^verbatim>\<open><img\s+src=["']u["']\s*>\<close> (flags \<open>gi\<close>).
\<close>

definition markdownImagePattern :: "string \<Rightarrow> item list" where
  "markdownImagePattern u = [Lit ''!['', Many (NoneOf '']'') 0, Lit (''](''  @ u @ '')'')]"

definition htmlImgPattern :: "string \<Rightarrow> item list" where
  "htmlImgPattern u =
     [Lit ''<img'', Many (NoneOf ''>'') 0, One space_cls, Lit ''src='', One quote_cls, Lit u,
      One quote_cls, Many (NoneOf ''>'') 0, Lit ''>'']"

definition simpleHtmlImgPattern :: "string \<Rightarrow> item list" where
  "simpleHtmlImgPattern u =
     [Lit ''<img'', Many space_cls 1, Lit ''src='', One quote_cls, Lit u, One quote_cls,
      Many space_cls 0, Lit ''>'']"

text \<open>
  \<open>replaceImageUrlInContent\<close>. The exact replacement \<open>split(originalUrl).join(newUrl)\<close>
  (\<open>original\<close> stands for the parameter \<open>originalUrl\<close>)
  returns at once when it changed the body. Otherwise the markdown expression and the two
  HTML expressions are applied one after the other. What follows them in the source only
  writes to the console.
\<close>

definition replaceImageUrlInContent :: "string \<Rightarrow> string \<Rightarrow> string \<Rightarrow> string" where
  "replaceImageUrlInContent content original newUrl =
     (let simple = join_str newUrl (split_str content original) in
      if includes_str content original \<and> simple \<noteq> content then simple
      else
        let afterMarkdown =
              regex_replace False (markdownImagePattern original)
                (\<lambda>ps. ''!['' @ ps ! 1 @ '']('' @ newUrl @ '')'') content;
            afterHtml =
              regex_replace True (htmlImgPattern original)
                (\<lambda>ps. concat (take 5 ps) @ newUrl @ concat (drop 6 ps)) afterMarkdown
        in regex_replace True (simpleHtmlImgPattern original)
             (\<lambda>ps. ''<img src='' @ [CHR 0x22] @ newUrl @ [CHR 0x22] @ ''>'') afterHtml)"

text \<open>
  For the statements about \<open>replaceImageUrlInContent\<close>: an \<open>img\<close> tag with the
  attributes \<open>attrs\<close> before \<open>src\<close>, the white space \<open>w\<close>, the address \<open>u\<close> between
  the quotes \<open>q\<close> and \<open>q'\<close>, and \<open>rest\<close> after it.
\<close>

definition img_tag :: "string \<Rightarrow> char \<Rightarrow> char \<Rightarrow> string \<Rightarrow> char \<Rightarrow> string \<Rightarrow> string" where
  "img_tag attrs w q u q' rest = ''<img'' @ attrs @ [w] @ ''src='' @ [q] @ u @ [q'] @ rest @ ''>''"

text \<open>
  The moments of one turn of the loop at which a stop request of the popup
  (\<open>UploadStateStorage.requestStop\<close>) can take effect. The loop touches the storage
  three times per turn: it reads the state, and \<open>updateProgress\<close> reads it again and
  writes it back. After that the turn shows the notification with the stop button,
  pauses for a second (from the second image on) and awaits \<open>uploadImage\<close>, without
  looking at the storage again. \<open>requestStop\<close> itself is a read followed by a write.
  \<^item> \<open>BeforeRead\<close>: the request is complete before the loop reads the state.
  \<^item> \<open>BeforeUpdate\<close>: its write falls between the loop's read and the read of
    \<open>updateProgress\<close>.
  \<^item> \<open>InsideUpdate\<close>: its write falls between the read and the write of
    \<open>updateProgress\<close>, which then writes back the record it had read.
  \<^item> \<open>AcrossUpdate\<close>: its read falls before the write of \<open>updateProgress\<close> and its
    write after it, so that it writes back the record it had read, with the flag.
  \<^item> \<open>AfterUpdate\<close>: the request begins after \<open>updateProgress\<close>: during the
    notification, the pause or the upload.
\<close>

datatype stop_point = BeforeRead | BeforeUpdate | InsideUpdate | AcrossUpdate | AfterUpdate

text \<open>
  The two halves of \<open>requestStop\<close> and of \<open>updateProgress\<close>: the write, given
  what the read returned.
\<close>

definition stop_write :: "UploadState option \<Rightarrow> chrome_storage \<Rightarrow> chrome_storage" where
  "stop_write r st =
     (case r of
        None \<Rightarrow> st
      | Some s \<Rightarrow> if isUploading s then setState (s\<lparr>shouldStop := Some True\<rparr>) st else st)"

definition progress_write :: "UploadState option \<Rightarrow> nat \<Rightarrow> nat \<Rightarrow> chrome_storage \<Rightarrow> chrome_storage" where
  "progress_write r i n st =
     (case r of
        None \<Rightarrow> st
      | Some s \<Rightarrow> setState (s\<lparr>currentIndex := i, totalImages := n\<rparr>) st)"

text \<open>
  \<open>await UploadStateStorage.updateProgress(i, n)\<close> in the loop, with the stop request
  of this turn, if there is one and it has not been made before the loop's read.
\<close>

definition progress_step :: "stop_point option \<Rightarrow> nat \<Rightarrow> nat \<Rightarrow> chrome_storage \<Rightarrow> chrome_storage" where
  "progress_step p i n st =
     (case p of
        Some BeforeUpdate \<Rightarrow> updateProgress i n (requestStop st)
      | Some InsideUpdate \<Rightarrow> progress_write (getState st) i n (requestStop st)
      | Some AcrossUpdate \<Rightarrow> stop_write (getState st) (updateProgress i n st)
      | Some AfterUpdate \<Rightarrow> requestStop (updateProgress i n st)
      | _ \<Rightarrow> updateProgress i n st)"

text \<open>
  The environment of one run: the client, the answers of the network for image \<open>i\<close> at
  attempt \<open>k\<close> (\<open>net i k\<close>), the clock, and the stop requests of the popup:
  \<open>stop_at i = Some p\<close> says that \<open>requestStop\<close> is called during the turn of the
  loop for image \<open>i\<close>, at the moment \<open>p\<close>; the turn for image \<open>i\<close> begins when the loop
  has finished with image \<open>i - 1\<close>.
\<close>

record run_env =
  the_client :: client
  net :: "nat \<Rightarrow> nat \<Rightarrow> attempt_io"
  now :: nat
  stop_at :: "nat \<Rightarrow> stop_point option"

text \<open>
  The state of one run: the document body, the storage, the calls of \<open>uploadImage\<close>
  made so far, each with the index of its image and with what the call returned, and the
  pauses of the loop itself (\<open>await this.delay\<close>), in milliseconds.
\<close>

record run_state =
  body :: string
  store :: chrome_storage
  calls :: "(nat \<times> ImageInfo \<times> (error + string \<times> nat list)) list"
  slept :: "nat list"

definition stop_seen :: "chrome_storage \<Rightarrow> bool" where
  "stop_seen st = (case getState st of None \<Rightarrow> False | Some s \<Rightarrow> shouldStop s = Some True)"

text \<open>
  One turn of the loop after the check of the stop flag; \<open>st1\<close> is the storage as the
  loop has just read it. The progress is written; an image without \<open>originalUrl\<close> is
  skipped (\<open>continue\<close>); otherwise the notification with the stop button is shown, the
  loop pauses for a second unless the image is the first, and \<open>uploadImage\<close> is awaited.
  A rejection of \<open>uploadImage\<close> is caught by the \<open>catch\<close> block of the loop, which
  pauses for a second after a 429 and goes on to the next image; \<open>hostedUrl\<close> is the
  constant \<open>outlineUrl\<close> of the source. The console output, the optional progress
  callback and the notifications (both taken to return normally) and the copy of the
  hosted address into \<open>image.outlineUrl\<close> change none of the four components of the
  state and are left out; the notification, the pauses and the upload are the time in
  which a stop request of the kind \<open>AfterUpdate\<close> arrives.
\<close>

definition upload_turn ::
    "run_env \<Rightarrow> nat \<Rightarrow> nat \<Rightarrow> ImageInfo \<Rightarrow> chrome_storage \<Rightarrow> run_state \<Rightarrow> run_state" where
  "upload_turn env i n img st1 rs =
     (let st2 = progress_step (stop_at env i) i n st1 in
      if originalUrl img = [] then rs\<lparr>store := st2\<rparr>
      else
        let pause = (if 0 < i then [1000] else []);
            result = uploadImage (the_client env) (net env i) (originalUrl img) 0;
            rs2 = rs\<lparr>store := st2, calls := calls rs @ [(i, img, result)],
                     slept := slept rs @ pause\<rparr>
        in case result of
             Inl rejection \<Rightarrow>
               rs2\<lparr>slept := slept rs2 @
                              (if response_status rejection = Some 429 then [1000] else [])\<rparr>
           | Inr (hostedUrl, delays) \<Rightarrow>
               if hostedUrl \<noteq> originalUrl img
               then rs2\<lparr>body := replaceImageUrlInContent (body rs2) (urlToCheck img) hostedUrl\<rparr>
               else rs2)"

text \<open>
  The loop over \<open>imagesToProcess\<close>, from index \<open>i\<close> on; \<open>n\<close> is the length of the whole
  list. Each turn begins with the read of the persisted state; leaving the recursion is
  the \<open>break\<close>.
\<close>

fun upload_loop :: "run_env \<Rightarrow> nat \<Rightarrow> nat \<Rightarrow> ImageInfo list \<Rightarrow> run_state \<Rightarrow> run_state" where
  "upload_loop env i n [] rs = rs"
| "upload_loop env i n (img # rest) rs =
     (let st1 = (if stop_at env i = Some BeforeRead then requestStop (store rs) else store rs) in
      if stop_seen st1 then rs\<lparr>store := st1\<rparr>
      else upload_loop env (i + 1) n rest (upload_turn env i n img st1 rs))"

declare upload_loop.simps(2) [simp del]

definition processImagesInContent ::
    "run_env \<Rightarrow> string \<Rightarrow> ImageInfo list \<Rightarrow> chrome_storage \<Rightarrow> run_state" where
  "processImagesInContent env content images st =
     (let todo = imagesToProcess content images;
          st1 = setState \<lparr>isUploading = True, currentIndex = 0, totalImages = length todo,
                          startTime = now env, documentId = None, shouldStop = Some False\<rparr> st;
          rs = upload_loop env 0 (length todo) todo
                 \<lparr>body = content, store = st1, calls = [], slept = []\<rparr>
      in rs\<lparr>store := clearState (store rs)\<rparr>)"

text \<open>
  For the statements about the loop: what \<open>uploadImage\<close> returns for image \<open>i\<close>, the
  body after the turn for one image, the substitutions the loop makes for a list of
  images whose first has index \<open>i\<close>, and the calls of \<open>uploadImage\<close> it makes for them,
  when nothing stops it.
\<close>

definition uploaded :: "run_env \<Rightarrow> nat \<Rightarrow> ImageInfo \<Rightarrow> error + string \<times> nat list" where
  "uploaded env i img = uploadImage (the_client env) (net env i) (originalUrl img) 0"

definition substituted :: "run_env \<Rightarrow> nat \<Rightarrow> ImageInfo \<Rightarrow> string \<Rightarrow> string" where
  "substituted env i img c =
     (if originalUrl img = [] then c
      else case uploaded env i img of
             Inl rejection \<Rightarrow> c
           | Inr (hostedUrl, delays) \<Rightarrow>
               if hostedUrl \<noteq> originalUrl img
               then replaceImageUrlInContent c (urlToCheck img) hostedUrl else c)"

fun substitutions :: "run_env \<Rightarrow> nat \<Rightarrow> ImageInfo list \<Rightarrow> string \<Rightarrow> string" where
  "substitutions env i [] c = c"
| "substitutions env i (img # rest) c = substitutions env (i + 1) rest (substituted env i img c)"

fun uploads_from ::
    "run_env \<Rightarrow> nat \<Rightarrow> ImageInfo list \<Rightarrow> (nat \<times> ImageInfo \<times> (error + string \<times> nat list)) list" where
  "uploads_from env i [] = []"
| "uploads_from env i (img # rest) =
     (if originalUrl img = [] then [] else [(i, img, uploaded env i img)]) @
     uploads_from env (i + 1) rest"

text \<open>
  The storage as the loop reads it at the start of the turn for image \<open>i\<close>; a storage
  that works and holds the state of a running upload nobody has asked to stop; and one
  that works and holds the state of a running upload with the stop flag.
\<close>

definition arrive :: "run_env \<Rightarrow> nat \<Rightarrow> chrome_storage \<Rightarrow> chrome_storage" where
  "arrive env i st = (if stop_at env i = Some BeforeRead then requestStop st else st)"

definition live :: "chrome_storage \<Rightarrow> bool" where
  "live st \<longleftrightarrow>
     \<not> get_rejects st \<and> \<not> set_rejects st \<and>
     (\<exists>s. upload_slot st = Some s \<and> isUploading s \<and> shouldStop s \<noteq> Some True)"

definition flagged :: "chrome_storage \<Rightarrow> bool" where
  "flagged st \<longleftrightarrow>
     \<not> get_rejects st \<and> \<not> set_rejects st \<and>
     (\<exists>s. upload_slot st = Some s \<and> isUploading s \<and> shouldStop s = Some True)"

section \<open>Links and embeds (src/features/content_extraction/link-processor.ts)\<close>

text \<open>
  The fields of a parsed \<open>URL\<close> the link processor reads. The platform's parser is a
  parameter \<open>parse\<close> of the functions below; \<open>None\<close> is the TypeError of
  \<open>new URL(url)\<close>.
\<close>

record url_object =
  hostname :: string
  pathname :: string

definition digit_cls :: cls where
  "digit_cls = OneOf ''0123456789''"

definition isYouTube :: "string \<Rightarrow> bool" where
  "isYouTube domain \<longleftrightarrow> includes_str domain ''youtube.com'' \<or> includes_str domain ''youtu.be''"

text \<open>
  \<^verbatim>\<open>/(?:youtube\.com\/watch\?v=|youtu\.be\/|youtube\.com\/embed\/)([^&\n?#]+)/\<close>, then
  \<^verbatim>\<open>/youtube\.com\/v\/([^&\n?#]+)/\<close>; the first expression that matches gives the id.
\<close>

definition extractYouTubeVideoId :: "string \<Rightarrow> string option" where
  "extractYouTubeVideoId url =
     (case regex_exec False
             [Alt [''youtube.com/watch?v='', ''youtu.be/'', ''youtube.com/embed/''],
              Many (NoneOf [CHR ''&'', CHR 0x0A, CHR ''?'', CHR ''#'']) 1] url of
        Some ps \<Rightarrow> Some (ps ! 1)
      | None \<Rightarrow>
          (case regex_exec False
                  [Lit ''youtube.com/v/'',
                   Many (NoneOf [CHR ''&'', CHR 0x0A, CHR ''?'', CHR ''#'']) 1] url of
             Some ps \<Rightarrow> Some (ps ! 1)
           | None \<Rightarrow> None))"

definition isTwitter :: "string \<Rightarrow> bool" where
  "isTwitter domain \<longleftrightarrow> includes_str domain ''twitter.com'' \<or> includes_str domain ''x.com''"

definition extractTwitterTweetId :: "url_object \<Rightarrow> string option" where
  "extractTwitterTweetId url =
     map_option (\<lambda>ps. ps ! 1) (regex_exec False [Lit ''/status/'', Many digit_cls 1] (pathname url))"

definition isCodePen :: "string \<Rightarrow> bool" where
  "isCodePen domain \<longleftrightarrow> includes_str domain ''codepen.io''"

definition extractCodePenId :: "url_object \<Rightarrow> string option" where
  "extractCodePenId url =
     map_option (\<lambda>ps. ps ! 1) (regex_exec False [Lit ''/pen/'', Many (NoneOf ''/'') 1] (pathname url))"

definition isGitHubGist :: "string \<Rightarrow> bool" where
  "isGitHubGist domain \<longleftrightarrow> includes_str domain ''gist.github.com''"

definition extractGistId :: "url_object \<Rightarrow> string option" where
  "extractGistId url =
     map_option (\<lambda>ps. ps ! 3)
       (regex_exec False
          [Lit ''/'', Many (NoneOf ''/'') 1, Lit ''/'', Many (OneOf ''abcdef0123456789'') 1]
          (pathname url))"

definition isFigma :: "string \<Rightarrow> bool" where
  "isFigma domain \<longleftrightarrow> includes_str domain ''figma.com''"

definition isMiro :: "string \<Rightarrow> bool" where
  "isMiro domain \<longleftrightarrow> includes_str domain ''miro.com''"

definition isGoogleMaps :: "string \<Rightarrow> url_object \<Rightarrow> bool" where
  "isGoogleMaps domain url \<longleftrightarrow>
     includes_str domain ''maps.google.com'' \<or>
     includes_str domain ''google.com'' \<and> includes_str (pathname url) ''/maps''"

definition isVimeo :: "string \<Rightarrow> bool" where
  "isVimeo domain \<longleftrightarrow> includes_str domain ''vimeo.com''"

definition extractVimeoVideoId :: "url_object \<Rightarrow> string option" where
  "extractVimeoVideoId url =
     map_option (\<lambda>ps. ps ! 1) (regex_exec False [Lit ''/'', Many digit_cls 1] (pathname url))"

text \<open>
  One provider block of \<open>convertLinkToOutlineTag\<close>:
  \<^verbatim>\<open>if (matches) { const id = extract(...); if (id) return `@[name](${id})`; }\<close>.
  \<open>None\<close> means that control falls through to the next block.
\<close>

definition id_rule :: "bool \<Rightarrow> string option \<Rightarrow> string \<Rightarrow> string option" where
  "id_rule matches extracted name =
     (if matches
      then (case extracted of
              None \<Rightarrow> None
            | Some v \<Rightarrow> if v = [] then None else Some (''@['' @ name @ '']('' @ v @ '')''))
      else None)"

text \<open>A block without an id: \<^verbatim>\<open>if (matches) return `@[name](${url})`;\<close>.\<close>

definition url_rule :: "bool \<Rightarrow> string \<Rightarrow> string \<Rightarrow> string option" where
  "url_rule matches url name =
     (if matches then Some (''@['' @ name @ '']('' @ url @ '')'') else None)"

text \<open>
  \<open>convertLinkToOutlineTag\<close>: the blocks in the order of the source, the plain link when
  none returns, and \<open>null\<close> when the address does not parse.
\<close>

definition convertLinkToOutlineTag ::
    "(string \<Rightarrow> url_object option) \<Rightarrow> string \<Rightarrow> string \<Rightarrow> string option" where
  "convertLinkToOutlineTag parse text url =
     (case parse url of
        None \<Rightarrow> None
      | Some urlObj \<Rightarrow>
          (let domain = toLowerCase (hostname urlObj) in
           case first_of (\<lambda>r. r)
                  [id_rule (isYouTube domain) (extractYouTubeVideoId url) ''youtube'',
                   id_rule (isTwitter domain) (extractTwitterTweetId urlObj) ''tweet'',
                   id_rule (isCodePen domain) (extractCodePenId urlObj) ''codepen'',
                   id_rule (isGitHubGist domain) (extractGistId urlObj) ''gist'',
                   url_rule (isFigma domain) url ''figma'',
                   url_rule (isMiro domain) url ''miro'',
                   url_rule (isGoogleMaps domain urlObj) url ''googlemaps'',
                   id_rule (isVimeo domain) (extractVimeoVideoId urlObj) ''vimeo''] of
             Some tag \<Rightarrow> Some tag
           | None \<Rightarrow> Some (''['' @ text @ '']('' @ url @ '')'')))"

text \<open>\<^verbatim>\<open>/\[([^\]]*)\]\(([^)]+)\)/g\<close>\<close>

definition linkPattern :: "item list" where
  "linkPattern = [Lit ''['', Many (NoneOf '']'') 0, Lit '']('', Many (NoneOf '')'') 1, Lit '')'']"

text \<open>
  \<open>processLinks\<close>: the callback receives the match (the pieces put together), the text
  and the address, and returns \<open>convertLinkToOutlineTag(text, url) || match\<close>.
\<close>

definition processLinks :: "(string \<Rightarrow> url_object option) \<Rightarrow> string \<Rightarrow> string" where
  "processLinks parse markdown =
     regex_replace False linkPattern
       (\<lambda>ps. case convertLinkToOutlineTag parse (ps ! 1) (ps ! 3) of
                None \<Rightarrow> concat ps
              | Some tag \<Rightarrow> if tag = [] then concat ps else tag)
       markdown"

text \<open>
  For the statements: no block of \<open>convertLinkToOutlineTag\<close> returns. Each provider
  with an id either does not match the domain or fails to extract an id, and none of the
  three providers without an id matches.
\<close>

definition no_embed :: "url_object \<Rightarrow> string \<Rightarrow> bool" where
  "no_embed urlObj url \<longleftrightarrow>
     (let domain = toLowerCase (hostname urlObj) in
      (\<not> isYouTube domain \<or> extractYouTubeVideoId url = None) \<and>
      (\<not> isTwitter domain \<or> extractTwitterTweetId urlObj = None) \<and>
      (\<not> isCodePen domain \<or> extractCodePenId urlObj = None) \<and>
      (\<not> isGitHubGist domain \<or> extractGistId urlObj = None) \<and>
      \<not> isFigma domain \<and> \<not> isMiro domain \<and> \<not> isGoogleMaps domain urlObj \<and>
      (\<not> isVimeo domain \<or> extractVimeoVideoId urlObj = None))"

section \<open>Tables and image addresses (src/features/content_extraction/extractor.ts)\<close>

text \<open>
  A table as \<open>convertTableToMarkdown\<close> reads it: \<open>table.rows\<close>, each row the list of
  its cells, each cell its \<open>textContent\<close> (\<open>None\<close> for \<open>null\<close>).
\<close>

type_synonym table_row = "string option list"

abbreviation (input) LF :: char where
  "LF \<equiv> CHR 0x0A"

text \<open>\<open>cell.textContent?.trim() || ''\<close>\<close>

definition cell_text :: "string option \<Rightarrow> string" where
  "cell_text c = (case c of None \<Rightarrow> [] | Some t \<Rightarrow> trim t)"

text \<open>\<open>'| ' + cells.join(' | ') + ' |\n'\<close>\<close>

definition pipe_line :: "string list \<Rightarrow> string" where
  "pipe_line cells = ''| '' @ join_str '' | '' cells @ '' |'' @ [LF]"

definition convertTableToMarkdown :: "table_row list \<Rightarrow> string" where
  "convertTableToMarkdown rows =
     (case rows of
        [] \<Rightarrow> []
      | first # others \<Rightarrow>
          (let headers = map cell_text first
           in [LF, LF] @ pipe_line headers @ pipe_line (map (\<lambda>h. ''---'') headers) @
              concat (map (\<lambda>r. pipe_line (map cell_text r)) others) @ [LF]))"

text \<open>
  For the statements: a line of the table without its line feed, the lines of a text that
  are not empty, and the number of pipe characters of a line.
\<close>

definition line_of :: "string list \<Rightarrow> string" where
  "line_of cells = ''| '' @ join_str '' | '' cells @ '' |''"

definition table_lines :: "string \<Rightarrow> string list" where
  "table_lines s = filter (\<lambda>l. l \<noteq> []) (split_str s [LF])"

definition pipes :: "string \<Rightarrow> nat" where
  "pipes l = length (filter (\<lambda>c. c = CHR ''|'') l)"

text \<open>
  \<open>convertRelativeImageUrls\<close>. The expression is \<^verbatim>\<open>/!\[([^\]]*)\]\(([^)]+)\)/g\<close>. An
  address that starts with \<open>http://\<close>, \<open>https://\<close>, \<open>data:\<close> or \<open>//\<close> is kept. Any
  other is resolved against the address of the page by the platform:
  \<open>resolve url\<close> is \<open>new URL(url, window.location.href).href\<close>, and \<open>None\<close> when the
  constructor throws, in which case the match is kept.
\<close>

definition imagePattern :: "item list" where
  "imagePattern = [Lit ''!['', Many (NoneOf '']'') 0, Lit '']('', Many (NoneOf '')'') 1, Lit '')'']"

definition is_kept :: "string \<Rightarrow> bool" where
  "is_kept url \<longleftrightarrow>
     startsWith url ''http://'' \<or> startsWith url ''https://'' \<or> startsWith url ''data:'' \<or>
     startsWith url ''//''"

definition absolute_image :: "(string \<Rightarrow> string option) \<Rightarrow> string list \<Rightarrow> string" where
  "absolute_image resolve ps =
     (let alt = ps ! 1; url = ps ! 3 in
      if is_kept url then concat ps
      else case resolve url of
             Some absoluteUrl \<Rightarrow> ''!['' @ alt @ '']('' @ absoluteUrl @ '')''
           | None \<Rightarrow> concat ps)"

definition convertRelativeImageUrls :: "(string \<Rightarrow> string option) \<Rightarrow> string \<Rightarrow> string" where
  "convertRelativeImageUrls resolve markdown =
     regex_replace False imagePattern (absolute_image resolve) markdown"

text \<open>
  The addresses of the image references of a markdown string: the second capture of each
  match, that is, what the pass hands to the resolver unless it keeps it.
\<close>

definition image_refs :: "string \<Rightarrow> string list" where
  "image_refs markdown = map (\<lambda>ps. ps ! 3) (regex_matches False imagePattern markdown)"

text \<open>
  For the proofs: \<open>tail_ok t\<close> says that \<open>![\<close> followed by \<open>t\<close> starts with a match of
  the expression, that is, the first \<open>]\<close> of \<open>t\<close> is followed by \<open>(\<close>, at least one
  code unit other than \<open>)\<close>, and later a \<open>)\<close>.
\<close>

definition url_ok :: "string \<Rightarrow> bool" where
  "url_ok t = (case t of [] \<Rightarrow> False | x # xs \<Rightarrow> x \<noteq> CHR '')'' \<and> CHR '')'' \<in> set xs)"

fun tail_ok :: "string \<Rightarrow> bool" where
  "tail_ok [] = False"
| "tail_ok (c # cs) =
     (if c = CHR '']''
      then (case cs of [] \<Rightarrow> False | x # t \<Rightarrow> x = CHR ''('' \<and> url_ok t)
      else tail_ok cs)"

section \<open>Example environments\<close>

text \<open>
  A client of the wiki at \<open>https://wiki.example\<close>, and a server that answers the first
  \<open>n\<close> calls of \<open>attachments.create\<close> with 429 and accepts every later one. The image
  itself downloads as a 2048-byte PNG.
\<close>

definition wiki_client :: client where
  "wiki_client = \<lparr>apiUrl = ''https://wiki.example'', atob_length = (\<lambda>b. None)\<rparr>"

definition accepted :: attachment_data where
  "accepted = \<lparr>uploadUrl = Some ''/api/files.create'', form = [],
               attachment = Some \<lparr>attachment_id = Some ''a1'',
                 attachment_url = Some ''/api/attachments.redirect?id=a1''\<rparr>\<rparr>"

definition rate_limited :: "nat \<Rightarrow> nat \<Rightarrow> attempt_io" where
  "rate_limited n k =
     \<lparr>download = Downloaded True 2048 (Some ''image/png''),
      create_reply = (if k < n then Rejects (Some 429) else Resolves (Some accepted)),
      upload_reply = Resolves 200\<rparr>"

text \<open>
  A server that refuses the token, an image of 11 MB, an image that cannot be fetched,
  and a server whose first reply to \<open>attachments.create\<close> has no \<open>attachment\<close> and
  whose first answer to the upload request is 429, and which accepts everything from
  the second attempt on.
\<close>

definition unauthorized :: "nat \<Rightarrow> attempt_io" where
  "unauthorized k =
     \<lparr>download = Downloaded True 2048 (Some ''image/png''),
      create_reply = Rejects (Some 401), upload_reply = Resolves 200\<rparr>"

definition oversized :: "nat \<Rightarrow> attempt_io" where
  "oversized k =
     \<lparr>download = Downloaded True (11 * 1024 * 1024) (Some ''image/png''),
      create_reply = Resolves (Some accepted), upload_reply = Resolves 200\<rparr>"

definition unreachable :: "nat \<Rightarrow> attempt_io" where
  "unreachable k =
     \<lparr>download = DownloadRejects,
      create_reply = Resolves (Some accepted), upload_reply = Resolves 200\<rparr>"

definition unattached :: "nat \<Rightarrow> attempt_io" where
  "unattached k =
     \<lparr>download = Downloaded True 2048 (Some ''image/png''),
      create_reply = Resolves (Some (if k = 0 then accepted\<lparr>attachment := None\<rparr> else accepted)),
      upload_reply = (if k = 0 then Rejects (Some 429) else Resolves 200)\<rparr>"

text \<open>
  An image known by its address alone, a storage that works and holds nothing, a run
  in which every upload is accepted and nobody asks to stop, and the same run with a stop
  request in the turn for image \<open>k\<close>, at the moment \<open>p\<close>.
\<close>

definition plain_image :: "string \<Rightarrow> ImageInfo" where
  "plain_image u = \<lparr>originalUrl = u, markdownUrl = None, outlineUrl = None, alt = None,
                    width = None, height = None, isContentImage = None\<rparr>"

definition working_storage :: chrome_storage where
  "working_storage = \<lparr>upload_slot = None, get_rejects = False, set_rejects = False,
                       remove_rejects = False\<rparr>"

definition quiet_env :: run_env where
  "quiet_env = \<lparr>the_client = wiki_client, net = (\<lambda>i. rate_limited 0), now = 0,
                stop_at = (\<lambda>i. None)\<rparr>"

definition stopping_env :: "nat \<Rightarrow> stop_point \<Rightarrow> run_env" where
  "stopping_env k p = \<lparr>the_client = wiki_client, net = (\<lambda>i. rate_limited 0), now = 0,
                       stop_at = (\<lambda>i. if i = k then Some p else None)\<rparr>"

definition hosted :: string where
  "hosted = ''https://wiki.example/api/attachments.redirect?id=a1''"

text \<open>
  The platform's URL parser on the addresses of the examples; every other string stands
  for one that does not parse.
\<close>

definition example_parse :: "string \<Rightarrow> url_object option" where
  "example_parse u =
     (if u = ''https://youtube.com.figma.com/''
      then Some \<lparr>hostname = ''youtube.com.figma.com'', pathname = ''/''\<rparr>
      else if u = ''https://vimeo.com/channels/staff''
      then Some \<lparr>hostname = ''vimeo.com'', pathname = ''/channels/staff''\<rparr>
      else if u = ''https://vimeo.com/55500''
      then Some \<lparr>hostname = ''vimeo.com'', pathname = ''/55500''\<rparr>
      else if u = ''https://youtu.be/abc123''
      then Some \<lparr>hostname = ''youtu.be'', pathname = ''/abc123''\<rparr>
      else if u = ''https://example.com/not-a-provider''
      then Some \<lparr>hostname = ''example.com'', pathname = ''/not-a-provider''\<rparr>
      else None)"

text \<open>
  The platform's resolver on a page at \<open>https://site.example/docs/page\<close>, on the
  references of the example below: a relative path is resolved against the directory of
  the page, and an absolute address of another scheme is returned as it is. No other
  string is handed to it in the example.
\<close>

definition site_resolve :: "string \<Rightarrow> string option" where
  "site_resolve u =
     (if u = ''img/a.png'' then Some ''https://site.example/docs/img/a.png''
      else if u = ''ftp://files.example/b.png'' then Some ''ftp://files.example/b.png''
      else None)"

text \<open>
  The platform's resolver on a page at \<open>https://w.example/wiki/Foo_(bar)\<close>, on the two
  references of the example below: a fragment reference keeps the address of the page
  and appends the fragment; a bare file name replaces the last segment of the path. No
  other string is handed to it in the example.
\<close>

definition wiki_resolve :: "string \<Rightarrow> string option" where
  "wiki_resolve u =
     (if u = ''#![b](c'' then Some ''https://w.example/wiki/Foo_(bar)#![b](c''
      else if u = ''c'' then Some ''https://w.example/wiki/c''
      else None)"

section \<open>Facts about strings and expressions\<close>

text \<open>The case folding on the letters, and on some code units next to them.\<close>

lemma fold_letters:
  "map canon ''abcdefghijklmnopqrstuvwxyz'' = ''ABCDEFGHIJKLMNOPQRSTUVWXYZ''"
  "map canon ''ABCDEFGHIJKLMNOPQRSTUVWXYZ'' = ''ABCDEFGHIJKLMNOPQRSTUVWXYZ''"
  "map lower_char ''ABCDEFGHIJKLMNOPQRSTUVWXYZ'' = ''abcdefghijklmnopqrstuvwxyz''"
  "map lower_char ''abcdefghijklmnopqrstuvwxyz'' = ''abcdefghijklmnopqrstuvwxyz''"
  "filter is_small ''@AZ[`az{0189 ./:-_'' = ''az''"
  by simp_all

text \<open>
  The Latin-1 letters: \<open>U+00E0\<close> to \<open>U+00FE\<close> fold onto \<open>U+00C0\<close> to \<open>U+00DE\<close>; the
  division and multiplication signs, the sharp s, \<open>U+00FF\<close>, the micro sign and the
  ordinal indicators stay.
\<close>

lemma fold_latin1:
  "map canon [CHR 0xE0, CHR 0xE9, CHR 0xF6, CHR 0xF8, CHR 0xFE] =
     [CHR 0xC0, CHR 0xC9, CHR 0xD6, CHR 0xD8, CHR 0xDE]"
  "map canon [CHR 0xC0, CHR 0xC9, CHR 0xD6, CHR 0xD8, CHR 0xDE] =
     [CHR 0xC0, CHR 0xC9, CHR 0xD6, CHR 0xD8, CHR 0xDE]"
  "map lower_char [CHR 0xC0, CHR 0xC9, CHR 0xD6, CHR 0xD8, CHR 0xDE] =
     [CHR 0xE0, CHR 0xE9, CHR 0xF6, CHR 0xF8, CHR 0xFE]"
  "map canon [CHR 0xF7, CHR 0xD7, CHR 0xDF, CHR 0xFF, CHR 0xB5, CHR 0xAA, CHR 0xBA, CHR 0xA0] =
     [CHR 0xF7, CHR 0xD7, CHR 0xDF, CHR 0xFF, CHR 0xB5, CHR 0xAA, CHR 0xBA, CHR 0xA0]"
  "map lower_char [CHR 0xF7, CHR 0xD7, CHR 0xDF, CHR 0xFF, CHR 0xB5, CHR 0xE0, CHR 0xFE] =
     [CHR 0xF7, CHR 0xD7, CHR 0xDF, CHR 0xFF, CHR 0xB5, CHR 0xE0, CHR 0xFE]"
  by simp_all

lemma canon_other: "\<not> is_small c \<Longrightarrow> canon c = c"
  by (cases c) simp

text \<open>\<open>trim\<close> keeps code units of its argument, and trimming twice is trimming once.\<close>

lemma set_trim: "set (trim t) \<subseteq> set t"
proof
  fix x assume "x \<in> set (trim t)"
  then have "x \<in> set (dropWhile (\<lambda>c. c \<in> set ws_chars)
                       (rev (dropWhile (\<lambda>c. c \<in> set ws_chars) t)))"
    by (simp add: trim_def)
  then have "x \<in> set (rev (dropWhile (\<lambda>c. c \<in> set ws_chars) t))"
    by (rule set_dropWhileD)
  then have "x \<in> set (dropWhile (\<lambda>c. c \<in> set ws_chars) t)" by simp
  then show "x \<in> set t" by (rule set_dropWhileD)
qed

lemma dropWhile_take_head:
  "a = [] \<or> \<not> P (hd a) \<Longrightarrow> dropWhile P (take m a) = take m a"
  by (cases a; cases m) auto

lemma rev_dropWhile_rev:
  "rev (dropWhile P (rev a)) = take (length a - length (takeWhile P (rev a))) a"
  by (simp add: dropWhile_eq_drop rev_drop)

lemma trim_idem: "trim (trim s) = trim s"
proof -
  let ?P = "\<lambda>c. c \<in> set ws_chars"
  let ?a = "dropWhile ?P s"
  let ?b = "dropWhile ?P (rev ?a)"
  have "?a = [] \<or> \<not> ?P (hd ?a)" using hd_dropWhile [of ?P s] by blast
  then have "dropWhile ?P (rev ?b) = rev ?b"
    unfolding rev_dropWhile_rev [of ?P ?a] by (rule dropWhile_take_head)
  then have "rev (dropWhile ?P (rev (dropWhile ?P (rev ?b)))) = rev ?b"
    by (simp only: rev_rev_ident dropWhile_idem)
  then show ?thesis unfolding trim_def .
qed

lemma startsWith_append: "startsWith s p \<longleftrightarrow> (\<exists>r. s = p @ r)"
  by (induction s p rule: startsWith.induct) auto

lemma startsWith_imp_ci: "startsWith s p \<Longrightarrow> startsWith_ci s p"
  by (induction s p rule: startsWith.induct) auto

lemma startsWith_ci_split:
  "startsWith_ci s (a @ b) \<longleftrightarrow> startsWith_ci s a \<and> startsWith_ci (drop (length a) s) b"
proof (induction s a rule: startsWith_ci.induct)
  case (1 s)
  then show ?case by simp
next
  case (2 p ps)
  then show ?case by simp
next
  case (3 c cs p ps)
  then show ?case by auto
qed

lemma startsWith_ci_length: "startsWith_ci s p \<Longrightarrow> length p \<le> length s"
  by (induction s p rule: startsWith_ci.induct) auto

lemma includes_str_drop: "includes_str s p \<longleftrightarrow> (\<exists>k. startsWith (drop k s) p)"
proof (induction s)
  case Nil
  show ?case by (cases p) auto
next
  case (Cons c cs)
  show ?case
  proof
    assume "includes_str (c # cs) p"
    then consider "startsWith (c # cs) p" | "includes_str cs p" by auto
    then show "\<exists>k. startsWith (drop k (c # cs)) p"
    proof cases
      case 1
      then have "startsWith (drop 0 (c # cs)) p" by simp
      then show ?thesis by blast
    next
      case 2
      with Cons obtain k where "startsWith (drop k cs) p" by blast
      then have "startsWith (drop (Suc k) (c # cs)) p" by simp
      then show ?thesis by blast
    qed
  next
    assume "\<exists>k. startsWith (drop k (c # cs)) p"
    then obtain k where k: "startsWith (drop k (c # cs)) p" by blast
    show "includes_str (c # cs) p"
    proof (cases k)
      case 0
      with k show ?thesis by simp
    next
      case (Suc k')
      with k have "startsWith (drop k' cs) p" by simp
      with Cons show ?thesis by auto
    qed
  qed
qed

lemma includes_ci_drop: "includes_ci s p \<longleftrightarrow> (\<exists>k. startsWith_ci (drop k s) p)"
proof (induction s)
  case Nil
  show ?case by (cases p) auto
next
  case (Cons c cs)
  show ?case
  proof
    assume "includes_ci (c # cs) p"
    then consider "startsWith_ci (c # cs) p" | "includes_ci cs p" by auto
    then show "\<exists>k. startsWith_ci (drop k (c # cs)) p"
    proof cases
      case 1
      then have "startsWith_ci (drop 0 (c # cs)) p" by simp
      then show ?thesis by blast
    next
      case 2
      with Cons obtain k where "startsWith_ci (drop k cs) p" by blast
      then have "startsWith_ci (drop (Suc k) (c # cs)) p" by simp
      then show ?thesis by blast
    qed
  next
    assume "\<exists>k. startsWith_ci (drop k (c # cs)) p"
    then obtain k where k: "startsWith_ci (drop k (c # cs)) p" by blast
    show "includes_ci (c # cs) p"
    proof (cases k)
      case 0
      with k show ?thesis by simp
    next
      case (Suc k')
      with k have "startsWith_ci (drop k' cs) p" by simp
      with Cons show ?thesis by auto
    qed
  qed
qed

lemma includes_str_imp_ci: "includes_str s p \<Longrightarrow> includes_ci s p"
  unfolding includes_str_drop includes_ci_drop using startsWith_imp_ci by blast

lemma includes_ci_part: "includes_ci s (a @ u @ b) \<Longrightarrow> includes_ci s u"
proof -
  assume "includes_ci s (a @ u @ b)"
  then obtain k where "startsWith_ci (drop k s) (a @ u @ b)"
    unfolding includes_ci_drop by blast
  then have "startsWith_ci (drop (length a) (drop k s)) (u @ b)"
    by (simp add: startsWith_ci_split)
  then have "startsWith_ci (drop (length a + k) s) u"
    by (simp add: startsWith_ci_split)
  then show ?thesis unfolding includes_ci_drop by blast
qed

lemma first_of_Some: "first_of f xs = Some r \<Longrightarrow> \<exists>x \<in> set xs. f x = Some r"
  by (induction xs) (auto split: option.splits)

lemma first_down_Some: "first_down f lo m = Some r \<Longrightarrow> \<exists>k. lo \<le> k \<and> k \<le> m \<and> f k = Some r"
proof (induction m)
  case 0
  then show ?case by (auto split: if_splits)
next
  case (Suc m)
  show ?case
  proof (cases "f (Suc m)")
    case None
    with Suc.prems have "first_down f lo m = Some r" by (simp split: if_splits)
    from Suc.IH [OF this] show ?thesis by (metis le_Suc_eq)
  next
    case (Some a)
    with Suc.prems have "lo \<le> Suc m \<and> f (Suc m) = Some r" by (simp split: if_splits)
    then show ?thesis by blast
  qed
qed

lemma match_items_literal:
  "match_items ci p s = Some ps \<Longrightarrow> Lit l \<in> set p \<Longrightarrow> \<exists>k. lit_match ci l (drop k s)"
proof (induction ci p s arbitrary: ps rule: match_items.induct)
  case (1 ci s)
  then show ?case by simp
next
  case (2 ci l' p s)
  from "2.prems"(1) have lm: "lit_match ci l' s" by (simp split: if_splits)
  from "2.prems"(1) lm obtain ps' where rest: "match_items ci p (drop (length l') s) = Some ps'"
    by auto
  show ?case
  proof (cases "l = l'")
    case True
    with lm have "lit_match ci l (drop 0 s)" by simp
    then show ?thesis by blast
  next
    case False
    with "2.prems"(2) have "Lit l \<in> set p" by simp
    from "2.IH" [OF lm rest this] obtain k where "lit_match ci l (drop k (drop (length l') s))"
      by blast
    then have "lit_match ci l (drop (k + length l') s)" by simp
    then show ?thesis by blast
  qed
next
  case (3 ci ls p s)
  from "3.prems"(1) obtain l' where l': "l' \<in> set ls" "lit_match ci l' s"
    and "map_option ((#) (take (length l') s)) (match_items ci p (drop (length l') s)) = Some ps"
    by (auto dest!: first_of_Some split: if_splits)
  then obtain ps' where rest: "match_items ci p (drop (length l') s) = Some ps'" by auto
  from "3.prems"(2) have "Lit l \<in> set p" by simp
  from "3.IH" [OF l'(2) rest this] obtain k where "lit_match ci l (drop k (drop (length l') s))"
    by blast
  then have "lit_match ci l (drop (k + length l') s)" by simp
  then show ?case by blast
next
  case (4 ci c p s)
  from "4.prems"(1) obtain x xs where s: "s = x # xs" and inc: "in_cls c x"
    by (auto split: list.splits if_splits)
  with "4.prems"(1) obtain ps' where rest: "match_items ci p xs = Some ps'" by auto
  from "4.prems"(2) have "Lit l \<in> set p" by simp
  from "4.IH" [OF s inc rest this] obtain k where "lit_match ci l (drop k xs)" by blast
  then have "lit_match ci l (drop (Suc k) s)" using s by simp
  then show ?case by blast
next
  case (5 ci c n p s)
  from "5.prems"(1) obtain k where
    "map_option ((#) (take k s)) (match_items ci p (drop k s)) = Some ps"
    by (auto dest!: first_down_Some)
  then obtain ps' where rest: "match_items ci p (drop k s) = Some ps'" by auto
  from "5.prems"(2) have "Lit l \<in> set p" by simp
  from "5.IH" [OF rest this] obtain k' where "lit_match ci l (drop k' (drop k s))" by blast
  then have "lit_match ci l (drop (k' + k) s)" by simp
  then show ?case by blast
qed

lemma regex_test_literal:
  "regex_test ci p s \<Longrightarrow> Lit l \<in> set p \<Longrightarrow> \<exists>k. lit_match ci l (drop k s)"
proof (induction s)
  case Nil
  then show ?case using match_items_literal [of ci p "[]" _ l] by auto
next
  case (Cons c cs)
  from Cons.prems(1) consider "match_items ci p (c # cs) \<noteq> None" | "regex_test ci p cs" by auto
  then show ?case
  proof cases
    case 1
    then show ?thesis using match_items_literal [of ci p "c # cs" _ l] Cons.prems(2) by auto
  next
    case 2
    from Cons.IH [OF this Cons.prems(2)] obtain k where "lit_match ci l (drop k cs)" by blast
    then have "lit_match ci l (drop (Suc k) (c # cs))" by simp
    then show ?thesis by blast
  qed
qed

lemma regex_replace_no_match:
  "\<not> regex_test ci p s \<Longrightarrow> regex_replace ci p f s = s"
  by (induction s) auto

lemma regex_replace_absent_ci:
  assumes "\<not> includes_ci s u" and "Lit (a @ u @ b) \<in> set p"
  shows "regex_replace ci p f s = s"
proof (rule regex_replace_no_match, rule notI)
  assume "regex_test ci p s"
  from regex_test_literal [OF this assms(2)] obtain k where
    "lit_match ci (a @ u @ b) (drop k s)" by blast
  then have "startsWith_ci (drop k s) (a @ u @ b)"
    by (auto simp: lit_match_def startsWith_imp_ci split: if_splits)
  then have "includes_ci s (a @ u @ b)" unfolding includes_ci_drop by blast
  then have "includes_ci s u" by (rule includes_ci_part)
  with assms(1) show False by simp
qed

lemma includes_str_part: "includes_str s (a @ u @ b) \<Longrightarrow> includes_str s u"
proof -
  assume "includes_str s (a @ u @ b)"
  then obtain k where "startsWith (drop k s) (a @ u @ b)"
    unfolding includes_str_drop by blast
  then obtain r where "drop k s = a @ u @ b @ r" by (auto simp: startsWith_append)
  then have "drop (length a) (drop k s) = u @ (b @ r)" by simp
  then have "startsWith (drop (length a + k) s) u" by (simp add: startsWith_append)
  then show ?thesis unfolding includes_str_drop by blast
qed

lemma regex_replace_absent:
  assumes "\<not> includes_str s u" and "Lit (a @ u @ b) \<in> set p"
  shows "regex_replace False p f s = s"
proof (rule regex_replace_no_match, rule notI)
  assume "regex_test False p s"
  from regex_test_literal [OF this assms(2)] obtain k where
    "lit_match False (a @ u @ b) (drop k s)" by blast
  then have "startsWith (drop k s) (a @ u @ b)" by (simp add: lit_match_def)
  then have "includes_str s (a @ u @ b)" unfolding includes_str_drop by blast
  then have "includes_str s u" by (rule includes_str_part)
  with assms(1) show False by simp
qed

lemma first_down_top:
  "\<forall>k<m. f k = None \<Longrightarrow> first_down f lo m = (if m < lo then None else f m)"
proof (induction m)
  case 0
  then show ?case by simp
next
  case (Suc m)
  then have below: "\<forall>k<m. f k = None" and at: "f m = None" by auto
  from Suc.IH [OF below] at have "first_down f lo m = None" by simp
  then show ?case by (simp split: option.splits)
qed

lemma match_items_length:
  "match_items ci p s = Some ps \<Longrightarrow> length ps = length p"
proof (induction ci p s arbitrary: ps rule: match_items.induct)
  case (1 ci s)
  then show ?case by simp
next
  case (2 ci l p s)
  then show ?case by (auto split: if_splits)
next
  case (3 ci ls p s)
  from "3.prems" obtain l' where l': "l' \<in> set ls" "lit_match ci l' s"
    and "map_option ((#) (take (length l') s)) (match_items ci p (drop (length l') s)) = Some ps"
    by (auto dest!: first_of_Some split: if_splits)
  then obtain ps' where "match_items ci p (drop (length l') s) = Some ps'" "ps = take (length l') s # ps'"
    by auto
  with "3.IH" [OF l'(2)] show ?case by simp
next
  case (4 ci c p s)
  then show ?case by (auto split: list.splits if_splits)
next
  case (5 ci c n p s)
  from "5.prems" obtain k where
    "map_option ((#) (take k s)) (match_items ci p (drop k s)) = Some ps"
    by (auto dest!: first_down_Some)
  then obtain ps' where "match_items ci p (drop k s) = Some ps'" "ps = take k s # ps'" by auto
  with "5.IH" show ?case by simp
qed

text \<open>
  A class \<open>[^d]\<close> repeated and followed by the literal \<open>d\<close>: the repetition stops at the
  first \<open>d\<close>, and no shorter repetition can match.
\<close>

lemma many_until:
  assumes "d \<notin> set a"
  shows "match_items False (Many (NoneOf [d]) n # Lit (d # l) # p) (a @ d # t) =
           (if length a < n then None
            else map_option ((#) a) (match_items False (Lit (d # l) # p) (d # t)))"
proof -
  let ?s = "a @ d # t"
  let ?f = "\<lambda>k. map_option ((#) (take k ?s)) (match_items False (Lit (d # l) # p) (drop k ?s))"
  have "\<forall>x \<in> set a. in_cls (NoneOf [d]) x" using assms by auto
  then have tw: "takeWhile (in_cls (NoneOf [d])) ?s = a"
    by (simp add: takeWhile_append)
  have "\<forall>k<length a. ?f k = None"
  proof (intro allI impI)
    fix k assume k: "k < length a"
    then have "drop k ?s = a ! k # drop (Suc k) a @ d # t"
      by (simp add: Cons_nth_drop_Suc)
    moreover have "a ! k \<noteq> d" using assms k by (metis nth_mem)
    ultimately show "?f k = None" by (simp add: lit_match_def)
  qed
  from first_down_top [OF this, of n] show ?thesis by (simp add: tw)
qed

lemma many_fails:
  assumes "d \<notin> set a"
  shows "match_items False (Many (NoneOf [d]) n # Lit (d # l) # p) a = None"
proof -
  let ?f = "\<lambda>k. map_option ((#) (take k a)) (match_items False (Lit (d # l) # p) (drop k a))"
  have tw: "takeWhile (in_cls (NoneOf [d])) a = a"
    using assms by (auto simp: takeWhile_eq_all_conv)
  have "\<forall>k<length a. ?f k = None"
  proof (intro allI impI)
    fix k assume k: "k < length a"
    then have "drop k a = a ! k # drop (Suc k) a"
      by (simp add: Cons_nth_drop_Suc)
    moreover have "a ! k \<noteq> d" using assms k by (metis nth_mem)
    ultimately show "?f k = None" by (simp add: lit_match_def)
  qed
  from first_down_top [OF this, of n] have
    "first_down ?f n (length a) = (if length a < n then None else ?f (length a))" .
  then show ?thesis by (simp add: tw lit_match_def)
qed

lemma match_items_prefix:
  "match_items ci p s = Some ps \<Longrightarrow> s = concat ps @ drop (length (concat ps)) s"
proof (induction ci p s arbitrary: ps rule: match_items.induct)
  case (1 ci s)
  then show ?case by simp
next
  case (2 ci l p s)
  from "2.prems" have lm: "lit_match ci l s" by (simp split: if_splits)
  with "2.prems" obtain ps' where rest: "match_items ci p (drop (length l) s) = Some ps'"
    and ps: "ps = take (length l) s # ps'" by auto
  from "2.IH" [OF lm rest] have
    "drop (length l) s = concat ps' @ drop (length (concat ps')) (drop (length l) s)" .
  then have "take (length l) s @ drop (length l) s =
             take (length l) s @ concat ps' @ drop (length (concat ps')) (drop (length l) s)"
    by simp
  then have "s = concat ps @ drop (length (concat ps') + length l) s"
    using ps by simp
  moreover have "length (take (length l) s) = length l"
  proof -
    have "length l \<le> length s"
      using lm by (cases ci) (auto simp: lit_match_def startsWith_ci_length startsWith_append)
    then show ?thesis by simp
  qed
  ultimately show ?case using ps by (simp add: add.commute)
next
  case (3 ci ls p s)
  from "3.prems" obtain l where l: "l \<in> set ls" "lit_match ci l s"
    and "map_option ((#) (take (length l) s)) (match_items ci p (drop (length l) s)) = Some ps"
    by (auto dest!: first_of_Some split: if_splits)
  then obtain ps' where rest: "match_items ci p (drop (length l) s) = Some ps'"
    and ps: "ps = take (length l) s # ps'" by auto
  from "3.IH" [OF l(2) rest] have
    "drop (length l) s = concat ps' @ drop (length (concat ps')) (drop (length l) s)" .
  then have "take (length l) s @ drop (length l) s =
             take (length l) s @ concat ps' @ drop (length (concat ps')) (drop (length l) s)"
    by simp
  then have "s = concat ps @ drop (length (concat ps') + length l) s"
    using ps by simp
  moreover have "length (take (length l) s) = length l"
  proof -
    have "length l \<le> length s"
      using l(2) by (cases ci) (auto simp: lit_match_def startsWith_ci_length startsWith_append)
    then show ?thesis by simp
  qed
  ultimately show ?case using ps by (simp add: add.commute)
next
  case (4 ci c p s)
  from "4.prems" obtain x xs where s: "s = x # xs" and inc: "in_cls c x"
    by (auto split: list.splits if_splits)
  with "4.prems" obtain ps' where rest: "match_items ci p xs = Some ps'" and ps: "ps = [x] # ps'"
    by auto
  from "4.IH" [OF s inc rest] s ps show ?case by simp
next
  case (5 ci c n p s)
  from "5.prems" obtain k where k: "k \<le> length (takeWhile (in_cls c) s)" and
    "map_option ((#) (take k s)) (match_items ci p (drop k s)) = Some ps"
    by (auto dest!: first_down_Some)
  then obtain ps' where rest: "match_items ci p (drop k s) = Some ps'"
    and ps: "ps = take k s # ps'" by auto
  have "length (takeWhile (in_cls c) s) \<le> length s" by (rule length_takeWhile_le)
  with k have len: "length (take k s) = k" by simp
  from "5.IH" [OF rest] have
    "drop k s = concat ps' @ drop (length (concat ps')) (drop k s)" .
  then have "take k s @ drop k s = take k s @ concat ps' @ drop (length (concat ps')) (drop k s)"
    by simp
  then have "s = concat ps @ drop (length (concat ps') + k) s"
    using ps by simp
  then show ?case using ps len by (simp add: add.commute)
qed

lemma regex_replace_at_match:
  assumes "match_items ci p s = Some ps" and "concat ps \<noteq> []"
  shows "regex_replace ci p f s = f ps @ regex_replace ci p f (drop (length (concat ps)) s)"
proof (cases s)
  case Nil
  with match_items_prefix [OF assms(1)] assms(2) show ?thesis by simp
next
  case (Cons c cs)
  have "0 < length (concat ps)" using assms(2) by simp
  then have "drop (length (concat ps) - 1) cs = drop (length (concat ps)) (c # cs)"
    by (cases "length (concat ps)") simp_all
  then show ?thesis
    using assms Cons by (simp del: drop_Suc_Cons)
qed

text \<open>Existence of a match, and what a match says about the text a literal matched.\<close>

lemma first_down_exists:
  "lo \<le> k \<Longrightarrow> k \<le> m \<Longrightarrow> f k \<noteq> None \<Longrightarrow> first_down f lo m \<noteq> None"
proof (induction m)
  case 0
  then show ?case by simp
next
  case (Suc m)
  show ?case
  proof (cases "k = Suc m")
    case True
    with Suc.prems show ?thesis by (auto split: option.splits)
  next
    case False
    with Suc.prems have "k \<le> m" by simp
    from Suc.IH [OF Suc.prems(1) this Suc.prems(3)] Suc.prems(1) \<open>k \<le> m\<close> show ?thesis
      by (auto split: option.splits)
  qed
qed

lemma lit_match_length: "lit_match ci l s \<Longrightarrow> length l \<le> length s"
  by (cases ci) (auto simp: lit_match_def startsWith_ci_length startsWith_append)

lemma match_items_piece:
  "match_items ci p s = Some ps \<Longrightarrow> i < length p \<Longrightarrow> p ! i = Lit l \<Longrightarrow>
   lit_match ci l (drop (length (concat (take i ps))) s) \<and>
   ps ! i = take (length l) (drop (length (concat (take i ps))) s)"
proof (induction ci p s arbitrary: ps i rule: match_items.induct)
  case (1 ci s)
  then show ?case by simp
next
  case (2 ci l' p s)
  from "2.prems"(1) have lm: "lit_match ci l' s" by (simp split: if_splits)
  with "2.prems"(1) obtain ps' where rest: "match_items ci p (drop (length l') s) = Some ps'"
    and ps: "ps = take (length l') s # ps'" by auto
  have len: "length (take (length l') s) = length l'"
    using lit_match_length [OF lm] by simp
  show ?case
  proof (cases i)
    case 0
    with "2.prems"(3) have "l = l'" by simp
    with 0 lm ps show ?thesis by simp
  next
    case (Suc i')
    with "2.prems" have "i' < length p" "p ! i' = Lit l" by simp_all
    from "2.IH" [OF lm rest this] Suc ps len show ?thesis by (simp add: add.commute)
  qed
next
  case (3 ci ls p s)
  from "3.prems"(1) obtain l' where l': "l' \<in> set ls" "lit_match ci l' s"
    and "map_option ((#) (take (length l') s)) (match_items ci p (drop (length l') s)) = Some ps"
    by (auto dest!: first_of_Some split: if_splits)
  then obtain ps' where rest: "match_items ci p (drop (length l') s) = Some ps'"
    and ps: "ps = take (length l') s # ps'" by auto
  have len: "length (take (length l') s) = length l'"
    using lit_match_length [OF l'(2)] by simp
  show ?case
  proof (cases i)
    case 0
    with "3.prems"(3) show ?thesis by simp
  next
    case (Suc i')
    with "3.prems" have "i' < length p" "p ! i' = Lit l" by simp_all
    from "3.IH" [OF l'(2) rest this] Suc ps len show ?thesis by (simp add: add.commute)
  qed
next
  case (4 ci c p s)
  from "4.prems"(1) obtain x xs where s: "s = x # xs" and inc: "in_cls c x"
    by (auto split: list.splits if_splits)
  with "4.prems"(1) obtain ps' where rest: "match_items ci p xs = Some ps'" and ps: "ps = [x] # ps'"
    by auto
  show ?case
  proof (cases i)
    case 0
    with "4.prems"(3) show ?thesis by simp
  next
    case (Suc i')
    with "4.prems" have "i' < length p" "p ! i' = Lit l" by simp_all
    from "4.IH" [OF s inc rest this] Suc ps s show ?thesis by simp
  qed
next
  case (5 ci c n p s)
  from "5.prems"(1) obtain k where k: "k \<le> length (takeWhile (in_cls c) s)" and
    "map_option ((#) (take k s)) (match_items ci p (drop k s)) = Some ps"
    by (auto dest!: first_down_Some)
  then obtain ps' where rest: "match_items ci p (drop k s) = Some ps'"
    and ps: "ps = take k s # ps'" by auto
  have "length (takeWhile (in_cls c) s) \<le> length s" by (rule length_takeWhile_le)
  with k have len: "length (take k s) = k" by simp
  show ?case
  proof (cases i)
    case 0
    with "5.prems"(3) show ?thesis by simp
  next
    case (Suc i')
    with "5.prems" have "i' < length p" "p ! i' = Lit l" by simp_all
    from "5.IH" [OF rest this] Suc ps len show ?thesis by (simp add: add.commute)
  qed
qed

lemma regex_test_append: "match_items ci p s \<noteq> None \<Longrightarrow> regex_test ci p (pre @ s)"
proof (induction pre)
  case Nil
  then show ?case by (cases s) auto
next
  case (Cons c pre)
  then show ?case by simp
qed

lemma regex_replace_first:
  "regex_test ci p s \<Longrightarrow>
   \<exists>k ps. match_items ci p (drop k s) = Some ps \<and>
          regex_replace ci p f s = take k s @ regex_replace ci p f (drop k s)"
proof (induction s)
  case Nil
  then obtain ps where "match_items ci p [] = Some ps" by auto
  then have "match_items ci p (drop 0 []) = Some ps \<and>
             regex_replace ci p f [] = take 0 [] @ regex_replace ci p f (drop 0 [])" by simp
  then show ?case by blast
next
  case (Cons c cs)
  show ?case
  proof (cases "match_items ci p (c # cs)")
    case (Some ps)
    then have "match_items ci p (drop 0 (c # cs)) = Some ps \<and>
      regex_replace ci p f (c # cs) = take 0 (c # cs) @ regex_replace ci p f (drop 0 (c # cs))"
      by simp
    then show ?thesis by blast
  next
    case None
    with Cons.prems have "regex_test ci p cs" by simp
    from Cons.IH [OF this] obtain k ps where k: "match_items ci p (drop k cs) = Some ps"
      "regex_replace ci p f cs = take k cs @ regex_replace ci p f (drop k cs)" by blast
    then have "match_items ci p (drop (Suc k) (c # cs)) = Some ps \<and>
      regex_replace ci p f (c # cs) =
        take (Suc k) (c # cs) @ regex_replace ci p f (drop (Suc k) (c # cs))"
      using None by simp
    then show ?thesis by blast
  qed
qed


lemma startsWith_ci_append: "startsWith_ci s p \<Longrightarrow> startsWith_ci (s @ t) p"
  by (induction s p rule: startsWith_ci.induct) auto

lemma startsWith_ci_within:
  "startsWith_ci (x @ y) p \<Longrightarrow> length p \<le> length x \<Longrightarrow> startsWith_ci x p"
  by (induction x p rule: startsWith_ci.induct) auto

lemma includes_ci_suffix: "includes_ci t p \<Longrightarrow> includes_ci (x @ t) p"
proof -
  assume "includes_ci t p"
  then obtain k where "startsWith_ci (drop k t) p" unfolding includes_ci_drop by blast
  then have "startsWith_ci (drop (length x + k) (x @ t)) p" by simp
  then show ?thesis unfolding includes_ci_drop by blast
qed

text \<open>
  When the address occurs in the body once, up to letter case: where an occurrence can
  begin.
\<close>

lemma single_occurrence:
  assumes len: "length v = length u"
      and before: "\<not> includes_ci (a @ butlast v) u"
      and after: "\<not> includes_ci (tl v @ b) u"
      and occ: "startsWith_ci (drop k (a @ v @ b)) u"
  shows "k = length a"
proof (rule ccontr)
  assume "k \<noteq> length a"
  then consider "k < length a" | "length a < k" by linarith
  then show False
  proof cases
    case 1
    have vne: "v \<noteq> []"
    proof
      assume "v = []"
      with len have "u = []" by simp
      then have "includes_ci (a @ butlast v) u"
        unfolding includes_ci_drop using startsWith_ci.simps(1) by blast
      with before show False by simp
    qed
    from vne have v: "v = butlast v @ [last v]" by simp
    have "drop k (a @ v @ b) = drop k (a @ butlast v) @ ([last v] @ b)"
      using 1 v by (metis append.assoc drop_append length_append less_imp_le_nat
          trans_le_add1 diff_is_0_eq drop_0)
    moreover have "length u \<le> length (drop k (a @ butlast v))"
      using 1 len vne by (simp add: Suc_leI)
    ultimately have "startsWith_ci (drop k (a @ butlast v)) u"
      using occ startsWith_ci_within by metis
    then have "includes_ci (a @ butlast v) u" unfolding includes_ci_drop by blast
    with before show False by simp
  next
    case 2
    show False
    proof (cases v)
      case Nil
      then have "drop k (a @ v @ b) = drop (k - length a) (tl v @ b)" using 2 by simp
      with occ have "includes_ci (tl v @ b) u" unfolding includes_ci_drop by metis
      with after show False by simp
    next
      case (Cons x xs)
      then have "drop k (a @ v @ b) = drop (k - length a - 1) (tl v @ b)"
        using 2 by (cases "k - length a") simp_all
      with occ have "includes_ci (tl v @ b) u" unfolding includes_ci_drop by metis
      with after show False by simp
    qed
  qed
qed

section \<open>Properties of the persisted upload state\<close>

text \<open>
  C10. \<open>updateProgress\<close> writes nothing when no upload state exists. When one exists,
  the stored value afterwards is a whole record that agrees with the old one on
  \<open>isUploading\<close>, \<open>startTime\<close>, \<open>shouldStop\<close> and \<open>documentId\<close>; it is either the old
  record (a rejected read or write) or the old record with \<open>currentIndex\<close> and
  \<open>totalImages\<close> set to the arguments. Nothing but the stored value changes.
\<close>

theorem updateProgress_frame:
  "(upload_slot st = None \<longrightarrow> updateProgress i n st = st) \<and>
   (\<forall>s. upload_slot st = Some s \<longrightarrow>
      (\<exists>s'. updateProgress i n st = st\<lparr>upload_slot := Some s'\<rparr> \<and>
            isUploading s' = isUploading s \<and> startTime s' = startTime s \<and>
            shouldStop s' = shouldStop s \<and> documentId s' = documentId s \<and>
            (s' = s \<or> s' = s\<lparr>currentIndex := i, totalImages := n\<rparr>) \<and>
            (\<not> get_rejects st \<and> \<not> set_rejects st \<longrightarrow>
               currentIndex s' = i \<and> totalImages s' = n)))"
proof (intro conjI allI impI)
  assume "upload_slot st = None"
  then show "updateProgress i n st = st"
    by (simp add: updateProgress_def getState_def setState_def)
next
  fix s
  assume slot: "upload_slot st = Some s"
  show "\<exists>s'. updateProgress i n st = st\<lparr>upload_slot := Some s'\<rparr> \<and>
            isUploading s' = isUploading s \<and> startTime s' = startTime s \<and>
            shouldStop s' = shouldStop s \<and> documentId s' = documentId s \<and>
            (s' = s \<or> s' = s\<lparr>currentIndex := i, totalImages := n\<rparr>) \<and>
            (\<not> get_rejects st \<and> \<not> set_rejects st \<longrightarrow>
               currentIndex s' = i \<and> totalImages s' = n)"
  proof (cases "get_rejects st \<or> set_rejects st")
    case True
    with slot have "updateProgress i n st = st\<lparr>upload_slot := Some s\<rparr>"
      by (auto simp: updateProgress_def getState_def setState_def)
    with True show ?thesis by blast
  next
    case False
    with slot have "updateProgress i n st =
        st\<lparr>upload_slot := Some (s\<lparr>currentIndex := i, totalImages := n\<rparr>)\<rparr>"
      by (simp add: updateProgress_def getState_def setState_def)
    then show ?thesis by force
  qed
qed

theorem updateProgress_frame_witness:
  "updateProgress 2 5
     \<lparr>upload_slot = Some \<lparr>isUploading = True, currentIndex = 1, totalImages = 5,
        startTime = 1700, documentId = None, shouldStop = Some True\<rparr>,
      get_rejects = False, set_rejects = False, remove_rejects = False\<rparr>
   = \<lparr>upload_slot = Some \<lparr>isUploading = True, currentIndex = 2, totalImages = 5,
        startTime = 1700, documentId = None, shouldStop = Some True\<rparr>,
      get_rejects = False, set_rejects = False, remove_rejects = False\<rparr>
   \<and> updateProgress 2 5
     \<lparr>upload_slot = None, get_rejects = False, set_rejects = False, remove_rejects = False\<rparr>
   = \<lparr>upload_slot = None, get_rejects = False, set_rejects = False, remove_rejects = False\<rparr>"
  using updateProgress_frame [of
      "\<lparr>upload_slot = Some \<lparr>isUploading = True, currentIndex = 1, totalImages = 5,
          startTime = 1700, documentId = None, shouldStop = Some True\<rparr>,
        get_rejects = False, set_rejects = False, remove_rejects = False\<rparr>" 2 5]
    updateProgress_frame [of
      "\<lparr>upload_slot = None, get_rejects = False, set_rejects = False,
        remove_rejects = False\<rparr>" 2 5]
  by (simp add: updateProgress_def getState_def setState_def)

section \<open>Properties of uploadImage\<close>

lemma uploadImage_unfold:
  "uploadImage cl io imageUrl retryCount =
     (case try_upload cl (io retryCount) imageUrl of
        Inr url \<Rightarrow> Inr (url, [])
      | Inl e \<Rightarrow>
          if response_status e = Some 401 then Inr (imageUrl, [])
          else if response_status e = Some 429 \<and> retryCount < 3 then
            (case uploadImage cl io imageUrl (Suc retryCount) of
               Inl rejection \<Rightarrow> Inl rejection
             | Inr (url, delays) \<Rightarrow> Inr (url, (1000 * 2 ^ retryCount * 2 ^ retryCount) # delays))
          else Inr (imageUrl, []))"
  by (subst uploadImage.simps) (simp add: Let_def maxRetries_def split: sum.splits)

lemma uploadImage_returned:
  "try_upload cl (io rc) u = Inr h \<Longrightarrow> uploadImage cl io u rc = Inr (h, [])"
  by (subst uploadImage_unfold) simp

lemma uploadImage_retry:
  "try_upload cl (io rc) u = Inl e \<Longrightarrow> response_status e = Some 429 \<Longrightarrow> rc < 3 \<Longrightarrow>
   uploadImage cl io u rc =
     (case uploadImage cl io u (Suc rc) of
        Inl rejection \<Rightarrow> Inl rejection
      | Inr (url, delays) \<Rightarrow> Inr (url, (1000 * 2 ^ rc * 2 ^ rc) # delays))"
  by (subst uploadImage_unfold) simp

lemma uploadImage_gives_up:
  "try_upload cl (io rc) u = Inl e \<Longrightarrow> response_status e \<noteq> Some 429 \<or> 3 \<le> rc \<Longrightarrow>
   uploadImage cl io u rc = Inr (u, [])"
  by (subst uploadImage_unfold) auto

text \<open>The promise always resolves: by induction on the retries left.\<close>

lemma uploadImage_resolves:
  "\<exists>url delays. uploadImage cl io u rc = Inr (url, delays)"
proof (induction cl io u rc rule: uploadImage.induct)
  case (1 cl io u rc)
  show ?case
  proof (cases "try_upload cl (io rc) u")
    case (Inr h)
    then show ?thesis using uploadImage_returned [of cl io rc u h] by simp
  next
    case (Inl e)
    show ?thesis
    proof (cases "response_status e = Some 429 \<and> rc < 3")
      case False
      then show ?thesis using Inl uploadImage_gives_up [of cl io rc u e] by auto
    next
      case True
      then have ne: "response_status e \<noteq> Some 401" by simp
      have "\<exists>url delays. uploadImage cl io u (rc + 1) = Inr (url, delays)"
        using "1.IH" [OF refl Inl ne] True by (simp add: maxRetries_def)
      then obtain url delays where "uploadImage cl io u (Suc rc) = Inr (url, delays)" by auto
      then show ?thesis using Inl uploadImage_retry [of cl io rc u e] True by simp
    qed
  qed
qed

text \<open>
  An attempt that returns the original address, throws a plain error, or is answered
  with a status other than 429 (or with 429 when the retries are used up) ends the call
  with the original address.
\<close>

lemma uploadImage_contained:
  assumes "try_upload cl (io rc) u = Inr u \<or> try_upload cl (io rc) u = Inl Error \<or>
           (\<exists>st. try_upload cl (io rc) u = Inl (AxiosError st) \<and> (st \<noteq> Some 429 \<or> 3 \<le> rc))"
  shows "uploadImage cl io u rc = Inr (u, [])"
proof -
  from assms consider "try_upload cl (io rc) u = Inr u" | "try_upload cl (io rc) u = Inl Error"
    | st where "try_upload cl (io rc) u = Inl (AxiosError st)" "st \<noteq> Some 429 \<or> 3 \<le> rc"
    by blast
  then show ?thesis
  proof cases
    case 1
    then show ?thesis by (rule uploadImage_returned)
  next
    case 2
    then show ?thesis using uploadImage_gives_up [of cl io rc u Error] by simp
  next
    case 3
    then show ?thesis using uploadImage_gives_up [of cl io rc u "AxiosError st"] by simp
  qed
qed

text \<open>What one attempt does, read off the answers of the outside world.\<close>

lemma download_failure_returns:
  "\<not> startsWith u ''data:'' \<Longrightarrow>
   download io = DownloadRejects \<or> (\<exists>n ct. download io = Downloaded False n ct) \<Longrightarrow>
   try_upload cl io u = Inr u"
  by (auto simp: try_upload_def obtain_blob_def)

lemma too_large_throws:
  "\<not> startsWith u ''data:'' \<and> download io = Downloaded True n ct \<or>
   startsWith u ''data:'' \<and> atob_length cl (base64Data u) = Some n \<Longrightarrow>
   10 * 1024 * 1024 < n \<Longrightarrow> try_upload cl io u = Inl Error"
  by (auto simp: try_upload_def obtain_blob_def)

text \<open>The MIME type of a fetched image is cleaned twice, to the same effect as once.\<close>

lemma clean_mime_idem: "clean_mime (clean_mime m) = clean_mime m"
proof -
  let ?t = "takeWhile (\<lambda>c. c \<noteq> CHR '';'') m"
  have "\<forall>c \<in> set ?t. c \<noteq> CHR '';''" by (auto dest: set_takeWhileD)
  then have "\<forall>c \<in> set (trim ?t). c \<noteq> CHR '';''" using set_trim [of ?t] by blast
  then have tw: "takeWhile (\<lambda>c. c \<noteq> CHR '';'') (trim ?t) = trim ?t"
    by (simp only: takeWhile_eq_all_conv)
  show ?thesis by (simp only: clean_mime_def tw trim_idem)
qed

lemma not_image_throws:
  "\<not> startsWith u ''data:'' \<and> download io = Downloaded True n ct \<and>
     \<not> startsWith (clean_mime (contentType ct)) ''image/'' \<or>
   startsWith u ''data:'' \<and> \<not> startsWith (clean_mime (dataUrlMime u)) ''image/'' \<Longrightarrow>
   try_upload cl io u = Inl Error"
  by (auto simp: try_upload_def obtain_blob_def Let_def clean_mime_idem split: option.splits)

lemma decode_failure_throws:
  "startsWith u ''data:'' \<Longrightarrow> atob_length cl (base64Data u) = None \<Longrightarrow>
   try_upload cl io u = Inl Error"
  by (simp add: try_upload_def obtain_blob_def)

lemma before_create:
  "(\<exists>n m. obtain_blob cl io u = Inr (Inr (n, m)) \<and> \<not> 10 * 1024 * 1024 < n \<and>
          startsWith (clean_mime m) ''image/'') \<or>
   try_upload cl io u = Inr u \<or> try_upload cl io u = Inl Error"
proof (cases "obtain_blob cl io u")
  case (Inl early)
  then have "early = u"
    by (auto simp: obtain_blob_def split: if_splits option.splits download.splits)
  with Inl show ?thesis by (simp add: try_upload_def)
next
  case (Inr r)
  show ?thesis
  proof (cases r)
    case (Inl e)
    with Inr have "e = Error"
      by (auto simp: obtain_blob_def split: if_splits option.splits download.splits)
    with Inl Inr show ?thesis by (simp add: try_upload_def)
  next
    case inner: (Inr nm)
    obtain n m where nm: "nm = (n, m)" by (cases nm)
    show ?thesis using Inr inner nm by (auto simp: try_upload_def Let_def)
  qed
qed

lemma create_rejected:
  assumes "create_reply io = Rejects st"
  shows "try_upload cl io u = Inr u \<or> try_upload cl io u = Inl Error \<or>
         try_upload cl io u = Inl (AxiosError st)"
proof -
  from before_create [of cl io u] consider
    n m where "obtain_blob cl io u = Inr (Inr (n, m))" "\<not> 10 * 1024 * 1024 < n"
      "startsWith (clean_mime m) ''image/''"
    | "try_upload cl io u = Inr u \<or> try_upload cl io u = Inl Error" by blast
  then show ?thesis
  proof cases
    case 1
    then have "try_upload cl io u = Inl (AxiosError st)"
      using assms by (simp add: try_upload_def Let_def)
    then show ?thesis by simp
  next
    case 2
    then show ?thesis by blast
  qed
qed

lemma create_malformed:
  assumes "create_reply io = Resolves None \<or>
           (\<exists>d. create_reply io = Resolves (Some d) \<and> uploadUrl d = None)"
  shows "try_upload cl io u = Inr u \<or> try_upload cl io u = Inl Error"
proof -
  from before_create [of cl io u] consider
    n m where "obtain_blob cl io u = Inr (Inr (n, m))" "\<not> 10 * 1024 * 1024 < n"
      "startsWith (clean_mime m) ''image/''"
    | "try_upload cl io u = Inr u \<or> try_upload cl io u = Inl Error" by blast
  then show ?thesis
  proof cases
    case 1
    then have "try_upload cl io u = Inl Error"
      using assms by (auto simp: try_upload_def Let_def)
    then show ?thesis by simp
  next
    case 2
    then show ?thesis .
  qed
qed

lemma upload_rejected:
  assumes "create_reply io = Resolves (Some d)" and "upload_reply io = Rejects st"
  shows "try_upload cl io u = Inr u \<or> try_upload cl io u = Inl Error \<or>
         try_upload cl io u = Inl (AxiosError st)"
proof -
  from before_create [of cl io u] consider
    n m where "obtain_blob cl io u = Inr (Inr (n, m))" "\<not> 10 * 1024 * 1024 < n"
      "startsWith (clean_mime m) ''image/''"
    | "try_upload cl io u = Inr u \<or> try_upload cl io u = Inl Error" by blast
  then show ?thesis
  proof cases
    case 1
    then have "try_upload cl io u = Inl Error \<or> try_upload cl io u = Inl (AxiosError st)"
      using assms by (cases "uploadUrl d") (simp_all add: try_upload_def Let_def)
    then show ?thesis by blast
  next
    case 2
    then show ?thesis by blast
  qed
qed

lemma upload_unsuccessful:
  assumes "create_reply io = Resolves (Some d)" and "upload_reply io = Resolves status"
      and "(status \<noteq> 200 \<and> status \<noteq> 201 \<and> status \<noteq> 204) \<or> attachment d = None \<or>
           (\<exists>a. attachment d = Some a \<and> attachment_url a = None)"
  shows "try_upload cl io u = Inr u \<or> try_upload cl io u = Inl Error"
proof -
  from before_create [of cl io u] consider
    n m where "obtain_blob cl io u = Inr (Inr (n, m))" "\<not> 10 * 1024 * 1024 < n"
      "startsWith (clean_mime m) ''image/''"
    | "try_upload cl io u = Inr u \<or> try_upload cl io u = Inl Error" by blast
  then show ?thesis
  proof cases
    case 1
    then have "try_upload cl io u = Inl Error"
      using assms by (cases "uploadUrl d") (auto simp: try_upload_def Let_def)
    then show ?thesis by simp
  next
    case 2
    then show ?thesis .
  qed
qed

lemma try_upload_hosted:
  assumes "try_upload cl io u = Inr url"
  shows "url = u \<or> hosted_by cl io url"
proof -
  from before_create [of cl io u] consider
    n m where "obtain_blob cl io u = Inr (Inr (n, m))" "\<not> 10 * 1024 * 1024 < n"
      "startsWith (clean_mime m) ''image/''"
    | "try_upload cl io u = Inr u \<or> try_upload cl io u = Inl Error" by blast
  then show ?thesis
  proof cases
    case 1
    then have "hosted_by cl io url"
      using assms unfolding hosted_by_def
      by (auto simp: try_upload_def Let_def
          split: axios_result.splits option.splits if_splits)
    then show ?thesis by simp
  next
    case 2
    with assms show ?thesis by auto
  qed
qed

lemma uploadImage_result:
  "uploadImage cl io u rc = Inr (url, delays) \<Longrightarrow>
   url = u \<or> (\<exists>k\<ge>rc. hosted_by cl (io k) url)"
proof (induction cl io u rc arbitrary: delays rule: uploadImage.induct)
  case (1 cl io u rc)
  show ?case
  proof (cases "try_upload cl (io rc) u")
    case (Inr h)
    then have "url = h" using "1.prems" uploadImage_returned [of cl io rc u h] by simp
    with Inr try_upload_hosted [of cl "io rc" u url] show ?thesis by auto
  next
    case (Inl e)
    show ?thesis
    proof (cases "response_status e = Some 429 \<and> rc < 3")
      case False
      then show ?thesis using Inl "1.prems" uploadImage_gives_up [of cl io rc u e] by auto
    next
      case True
      then have ne: "response_status e \<noteq> Some 401" by simp
      obtain url' delays' where next_call: "uploadImage cl io u (Suc rc) = Inr (url', delays')"
        using uploadImage_resolves [of cl io u "Suc rc"] by blast
      then have "url = url'"
        using Inl "1.prems" uploadImage_retry [of cl io rc u e] True by simp
      with next_call have "uploadImage cl io u (rc + 1) = Inr (url, delays')" by simp
      moreover have "response_status e = Some 429 \<and> rc < maxRetries"
        using True by (simp add: maxRetries_def)
      ultimately have "url = u \<or> (\<exists>k\<ge>rc + 1. hosted_by cl (io k) url)"
        using "1.IH" [OF refl Inl ne _ refl, of delays'] by blast
      then show ?thesis by (metis Suc_eq_plus1 Suc_leD)
    qed
  qed
qed

text \<open>
  C1. The retry schedule on HTTP 429. When the first three attempts are answered with
  429, the fourth attempt decides: its hosted address is returned if it succeeds, the
  original address if it fails. The delays slept before the three retries are 1000,
  4000 and 16000 milliseconds: \<open>retryDelay\<close> already is \<open>1000 * 2 ^ retryCount\<close>, and
  the \<open>catch\<close> block multiplies it by \<open>2 ^ retryCount\<close> once more.
\<close>

theorem uploadImage_backoff_delays:
  assumes "\<forall>k<3. \<exists>e. try_upload cl (io k) u = Inl e \<and> response_status e = Some 429"
  shows "uploadImage cl io u 0 =
           Inr (case try_upload cl (io 3) u of Inr h \<Rightarrow> h | Inl e \<Rightarrow> u, [1000, 4000, 16000])"
proof -
  obtain e0 where e0: "try_upload cl (io 0) u = Inl e0" "response_status e0 = Some 429"
    using assms by (metis zero_less_numeral)
  obtain e1 where e1: "try_upload cl (io (Suc 0)) u = Inl e1" "response_status e1 = Some 429"
    using assms by (metis One_nat_def one_less_numeral_iff semiring_norm(77))
  obtain e2 where e2: "try_upload cl (io (Suc (Suc 0))) u = Inl e2" "response_status e2 = Some 429"
    using assms by (metis Suc_1 lessI numeral_3_eq_3)
  have last: "uploadImage cl io u 3 =
                Inr (case try_upload cl (io 3) u of Inr h \<Rightarrow> h | Inl e \<Rightarrow> u, [])"
    by (subst uploadImage_unfold) (simp split: sum.splits)
  have three: "Suc (Suc (Suc 0)) = 3" by simp
  have s2: "uploadImage cl io u (Suc (Suc 0)) =
      Inr (case try_upload cl (io 3) u of Inr h \<Rightarrow> h | Inl e \<Rightarrow> u, [16000])"
    using e2 uploadImage_retry [of cl io "Suc (Suc 0)" u e2] last by (simp add: three)
  have s1: "uploadImage cl io u (Suc 0) =
      Inr (case try_upload cl (io 3) u of Inr h \<Rightarrow> h | Inl e \<Rightarrow> u, [4000, 16000])"
    using e1 uploadImage_retry [of cl io "Suc 0" u e1] s2 by simp
  show ?thesis
    using e0 uploadImage_retry [of cl io 0 u e0] s1 by simp
qed

text \<open>
  C4. The promise \<open>uploadImage\<close> returns always resolves. Read off the answers of the
  outside world, every failure of an attempt ends the call with the original address
  and without a retry: an image that cannot be fetched or decoded, a blob over 10 MB,
  a MIME type that is not an image, a 401 answer to either request, any other rejection
  of either request (a 429 only when the three retries are used up), a reply to
  \<open>attachments.create\<close> without \<open>data\<close>, \<open>uploadUrl\<close> or the address of the
  attachment, and an upload answered with a status other than 200, 201 and 204. In
  general the address returned differs from the original one only if some attempt
  hosted the file: both of its requests were answered well, and the address is the one
  named in the reply.
\<close>

theorem uploadImage_never_fails:
  "(\<exists>url delays. uploadImage cl io u rc = Inr (url, delays)) \<and>
   (\<not> startsWith u ''data:'' \<and>
    (download (io rc) = DownloadRejects \<or> (\<exists>n ct. download (io rc) = Downloaded False n ct)) \<longrightarrow>
      uploadImage cl io u rc = Inr (u, [])) \<and>
   (startsWith u ''data:'' \<and> atob_length cl (base64Data u) = None \<longrightarrow>
      uploadImage cl io u rc = Inr (u, [])) \<and>
   (\<forall>n ct. (\<not> startsWith u ''data:'' \<and> download (io rc) = Downloaded True n ct \<or>
            startsWith u ''data:'' \<and> atob_length cl (base64Data u) = Some n) \<and>
           10 * 1024 * 1024 < n \<longrightarrow>
      uploadImage cl io u rc = Inr (u, [])) \<and>
   (\<forall>n ct. \<not> startsWith u ''data:'' \<and> download (io rc) = Downloaded True n ct \<and>
           \<not> startsWith (clean_mime (contentType ct)) ''image/'' \<longrightarrow>
      uploadImage cl io u rc = Inr (u, [])) \<and>
   (startsWith u ''data:'' \<and> \<not> startsWith (clean_mime (dataUrlMime u)) ''image/'' \<longrightarrow>
      uploadImage cl io u rc = Inr (u, [])) \<and>
   (create_reply (io rc) = Rejects (Some 401) \<longrightarrow> uploadImage cl io u rc = Inr (u, [])) \<and>
   (\<forall>d. create_reply (io rc) = Resolves (Some d) \<and> upload_reply (io rc) = Rejects (Some 401) \<longrightarrow>
      uploadImage cl io u rc = Inr (u, [])) \<and>
   (\<forall>st. create_reply (io rc) = Rejects st \<and> (st \<noteq> Some 429 \<or> 3 \<le> rc) \<longrightarrow>
      uploadImage cl io u rc = Inr (u, [])) \<and>
   (\<forall>d st. create_reply (io rc) = Resolves (Some d) \<and> upload_reply (io rc) = Rejects st \<and>
           (st \<noteq> Some 429 \<or> 3 \<le> rc) \<longrightarrow>
      uploadImage cl io u rc = Inr (u, [])) \<and>
   (create_reply (io rc) = Resolves None \<or>
    (\<exists>d. create_reply (io rc) = Resolves (Some d) \<and> uploadUrl d = None) \<longrightarrow>
      uploadImage cl io u rc = Inr (u, [])) \<and>
   (\<forall>d status. create_reply (io rc) = Resolves (Some d) \<and>
               upload_reply (io rc) = Resolves status \<and>
               ((status \<noteq> 200 \<and> status \<noteq> 201 \<and> status \<noteq> 204) \<or> attachment d = None \<or>
                (\<exists>a. attachment d = Some a \<and> attachment_url a = None)) \<longrightarrow>
      uploadImage cl io u rc = Inr (u, [])) \<and>
   (\<forall>url delays. uploadImage cl io u rc = Inr (url, delays) \<and> url \<noteq> u \<longrightarrow>
      (\<exists>k\<ge>rc. hosted_by cl (io k) url))"
proof (intro conjI allI impI)
  show "\<exists>url delays. uploadImage cl io u rc = Inr (url, delays)"
    by (rule uploadImage_resolves)
next
  assume "\<not> startsWith u ''data:'' \<and>
    (download (io rc) = DownloadRejects \<or> (\<exists>n ct. download (io rc) = Downloaded False n ct))"
  then have "try_upload cl (io rc) u = Inr u"
    using download_failure_returns [of u "io rc" cl] by simp
  then show "uploadImage cl io u rc = Inr (u, [])" by (rule uploadImage_returned)
next
  assume "startsWith u ''data:'' \<and> atob_length cl (base64Data u) = None"
  then have "try_upload cl (io rc) u = Inl Error"
    using decode_failure_throws [of u cl "io rc"] by simp
  then show "uploadImage cl io u rc = Inr (u, [])"
    using uploadImage_contained [of cl io rc u] by simp
next
  fix n ct
  assume "(\<not> startsWith u ''data:'' \<and> download (io rc) = Downloaded True n ct \<or>
            startsWith u ''data:'' \<and> atob_length cl (base64Data u) = Some n) \<and>
           10 * 1024 * 1024 < n"
  then have "try_upload cl (io rc) u = Inl Error"
    using too_large_throws [of u "io rc" n ct cl] by simp
  then show "uploadImage cl io u rc = Inr (u, [])"
    using uploadImage_contained [of cl io rc u] by simp
next
  fix n ct
  assume "\<not> startsWith u ''data:'' \<and> download (io rc) = Downloaded True n ct \<and>
           \<not> startsWith (clean_mime (contentType ct)) ''image/''"
  then have "try_upload cl (io rc) u = Inl Error"
    using not_image_throws [of u "io rc" n ct cl] by simp
  then show "uploadImage cl io u rc = Inr (u, [])"
    using uploadImage_contained [of cl io rc u] by simp
next
  assume "startsWith u ''data:'' \<and> \<not> startsWith (clean_mime (dataUrlMime u)) ''image/''"
  then have "try_upload cl (io rc) u = Inl Error"
    using not_image_throws [of u "io rc" _ _ cl] by simp
  then show "uploadImage cl io u rc = Inr (u, [])"
    using uploadImage_contained [of cl io rc u] by simp
next
  assume "create_reply (io rc) = Rejects (Some 401)"
  from create_rejected [OF this, of cl u] show "uploadImage cl io u rc = Inr (u, [])"
    by (intro uploadImage_contained) auto
next
  fix d
  assume "create_reply (io rc) = Resolves (Some d) \<and> upload_reply (io rc) = Rejects (Some 401)"
  then have "try_upload cl (io rc) u = Inr u \<or> try_upload cl (io rc) u = Inl Error \<or>
             try_upload cl (io rc) u = Inl (AxiosError (Some 401))"
    using upload_rejected [of "io rc" d "Some 401" cl u] by simp
  then show "uploadImage cl io u rc = Inr (u, [])"
    by (intro uploadImage_contained) auto
next
  fix st
  assume a: "create_reply (io rc) = Rejects st \<and> (st \<noteq> Some 429 \<or> 3 \<le> rc)"
  then have "try_upload cl (io rc) u = Inr u \<or> try_upload cl (io rc) u = Inl Error \<or>
             try_upload cl (io rc) u = Inl (AxiosError st)"
    using create_rejected [of "io rc" st cl u] by simp
  with a show "uploadImage cl io u rc = Inr (u, [])"
    by (intro uploadImage_contained) auto
next
  fix d st
  assume a: "create_reply (io rc) = Resolves (Some d) \<and> upload_reply (io rc) = Rejects st \<and>
           (st \<noteq> Some 429 \<or> 3 \<le> rc)"
  then have "try_upload cl (io rc) u = Inr u \<or> try_upload cl (io rc) u = Inl Error \<or>
             try_upload cl (io rc) u = Inl (AxiosError st)"
    using upload_rejected [of "io rc" d st cl u] by simp
  with a show "uploadImage cl io u rc = Inr (u, [])"
    by (intro uploadImage_contained) auto
next
  assume "create_reply (io rc) = Resolves None \<or>
    (\<exists>d. create_reply (io rc) = Resolves (Some d) \<and> uploadUrl d = None)"
  from create_malformed [OF this, of cl u] show "uploadImage cl io u rc = Inr (u, [])"
    by (intro uploadImage_contained) auto
next
  fix d status
  assume "create_reply (io rc) = Resolves (Some d) \<and>
               upload_reply (io rc) = Resolves status \<and>
               ((status \<noteq> 200 \<and> status \<noteq> 201 \<and> status \<noteq> 204) \<or> attachment d = None \<or>
                (\<exists>a. attachment d = Some a \<and> attachment_url a = None))"
  then have "try_upload cl (io rc) u = Inr u \<or> try_upload cl (io rc) u = Inl Error"
    using upload_unsuccessful [of "io rc" d status cl u] by simp
  then show "uploadImage cl io u rc = Inr (u, [])"
    by (intro uploadImage_contained) auto
next
  fix url delays
  assume "uploadImage cl io u rc = Inr (url, delays) \<and> url \<noteq> u"
  then show "\<exists>k\<ge>rc. hosted_by cl (io k) url"
    using uploadImage_result [of cl io u rc url delays] by simp
qed

lemma try_upload_rate_limited:
  "\<not> startsWith u ''data:'' \<Longrightarrow>
   try_upload wiki_client (rate_limited n k) u =
     (if k < n then Inl (AxiosError (Some 429))
      else Inr ''https://wiki.example/api/attachments.redirect?id=a1'')"
  by (simp add: try_upload_def obtain_blob_def clean_mime_def trim_def ws_chars_def
      contentType_def fileUrl_def rate_limited_def wiki_client_def accepted_def)

text \<open>
  The order of the requests and of the reads: a reply to \<open>attachments.create\<close> without
  \<open>attachment\<close> does not keep the upload request from being sent, and when that is
  answered with 429 the image is tried again.
\<close>

lemma missing_attachment_retried:
  "uploadImage wiki_client unattached ''http://a/img.png'' 0 =
     Inr (''https://wiki.example/api/attachments.redirect?id=a1'', [1000])"
proof -
  have first: "try_upload wiki_client (unattached 0) ''http://a/img.png'' =
                 Inl (AxiosError (Some 429))"
    by (simp add: try_upload_def obtain_blob_def clean_mime_def trim_def ws_chars_def
        contentType_def unattached_def wiki_client_def accepted_def)
  have second: "try_upload wiki_client (unattached (Suc 0)) ''http://a/img.png'' =
                  Inr ''https://wiki.example/api/attachments.redirect?id=a1''"
    by (simp add: try_upload_def obtain_blob_def clean_mime_def trim_def ws_chars_def
        contentType_def fileUrl_def unattached_def wiki_client_def accepted_def)
  show ?thesis
    using uploadImage_retry [of wiki_client unattached 0 "''http://a/img.png''", OF first]
      uploadImage_returned [of wiki_client unattached "Suc 0" "''http://a/img.png''", OF second]
    by simp
qed

theorem uploadImage_backoff_delays_witness:
  "uploadImage wiki_client (rate_limited 3) ''http://a/img.png'' 0 =
     Inr (''https://wiki.example/api/attachments.redirect?id=a1'', [1000, 4000, 16000]) \<and>
   uploadImage wiki_client (rate_limited 4) ''http://a/img.png'' 0 =
     Inr (''http://a/img.png'', [1000, 4000, 16000])"
proof -
  have h3: "\<forall>k<3. \<exists>e. try_upload wiki_client (rate_limited 3 k) ''http://a/img.png'' = Inl e \<and>
              response_status e = Some 429"
    by (simp add: try_upload_rate_limited)
  have h4: "\<forall>k<3. \<exists>e. try_upload wiki_client (rate_limited 4 k) ''http://a/img.png'' = Inl e \<and>
              response_status e = Some 429"
    by (simp add: try_upload_rate_limited)
  show ?thesis
    using uploadImage_backoff_delays [OF h3] uploadImage_backoff_delays [OF h4]
    by (simp add: try_upload_rate_limited)
qed

theorem uploadImage_never_fails_witness:
  "uploadImage wiki_client oversized ''http://a/img.png'' 0 = Inr (''http://a/img.png'', []) \<and>
   uploadImage wiki_client unauthorized ''http://a/img.png'' 0 = Inr (''http://a/img.png'', []) \<and>
   uploadImage wiki_client unreachable ''http://a/img.png'' 0 = Inr (''http://a/img.png'', []) \<and>
   uploadImage wiki_client (rate_limited 0) ''data:image/png;base64,AAAA'' 0 =
     Inr (''data:image/png;base64,AAAA'', [])"
proof -
  have big: "download (oversized 0) = Downloaded True (11 * 1024 * 1024) (Some ''image/png'')"
    by (simp add: oversized_def)
  have una: "create_reply (unauthorized 0) = Rejects (Some 401)"
    by (simp add: unauthorized_def)
  have unr: "download (unreachable 0) = DownloadRejects"
    by (simp add: unreachable_def)
  have dec: "atob_length wiki_client (base64Data ''data:image/png;base64,AAAA'') = None"
    by (simp add: wiki_client_def)
  show ?thesis
    using big una unr dec
      uploadImage_never_fails [of wiki_client oversized "''http://a/img.png''" 0]
      uploadImage_never_fails [of wiki_client unauthorized "''http://a/img.png''" 0]
      uploadImage_never_fails [of wiki_client unreachable "''http://a/img.png''" 0]
      uploadImage_never_fails [of wiki_client "rate_limited 0" "''data:image/png;base64,AAAA''" 0]
    by simp
qed

section \<open>Properties of the image pipeline\<close>

text \<open>
  The filter folds the case of Latin-1 letters as of the letters \<open>a\<close> to \<open>z\<close>: an
  address whose file name is the small letter \<open>U+00E0\<close> is found in a tag whose \<open>src\<close>
  is written with the capital \<open>U+00C0\<close>.
\<close>

lemma filter_folds_case:
  "isInContent (''<img src='http://a/'' @ [CHR 0xC0] @ ''.PNG'>'')
     (''http://a/'' @ [CHR 0xE0] @ ''.png'')"
  by (simp add: isInContent_def htmlImgPattern1_def htmlImgPattern2_def htmlImgPattern3_def
      markdownPattern_def lit_match_def quote_cls_def space_cls_def ws_chars_def)

text \<open>One turn of the loop.\<close>

lemma upload_loop_break:
  "stop_seen (arrive env i (store rs)) \<Longrightarrow>
   upload_loop env i n (x # xs) rs = rs\<lparr>store := arrive env i (store rs)\<rparr>"
  by (subst upload_loop.simps(2)) (simp add: arrive_def Let_def)

lemma upload_loop_turn:
  "\<not> stop_seen (arrive env i (store rs)) \<Longrightarrow>
   upload_loop env i n (x # xs) rs =
     upload_loop env (Suc i) n xs (upload_turn env i n x (arrive env i (store rs)) rs)"
  by (subst upload_loop.simps(2)) (simp add: arrive_def Let_def)

lemma body_turn: "body (upload_turn env i n x st rs) = substituted env i x (body rs)"
  by (simp add: upload_turn_def substituted_def uploaded_def Let_def split: sum.splits prod.splits)

lemma store_turn: "store (upload_turn env i n x st rs) = progress_step (stop_at env i) i n st"
  by (simp add: upload_turn_def Let_def split: sum.splits prod.splits)

lemma calls_turn:
  "calls (upload_turn env i n x st rs) =
     calls rs @ (if originalUrl x = [] then [] else [(i, x, uploaded env i x)])"
  by (simp add: upload_turn_def uploaded_def Let_def split: sum.splits prod.splits)

lemma upload_loop_calls_from:
  "(j, img, r) \<in> set (calls (upload_loop env i n xs rs)) \<Longrightarrow>
   (j, img, r) \<in> set (calls rs) \<or> img \<in> set xs"
proof (induction xs arbitrary: i rs)
  case Nil
  then show ?case by simp
next
  case (Cons x xs)
  show ?case
  proof (cases "stop_seen (arrive env i (store rs))")
    case True
    with Cons.prems show ?thesis by (simp only: upload_loop_break) simp
  next
    case False
    from Cons.prems have
      "(j, img, r) \<in> set (calls (upload_loop env (Suc i) n xs
         (upload_turn env i n x (arrive env i (store rs)) rs)))"
      by (simp only: upload_loop_turn [OF False])
    from Cons.IH [OF this] show ?thesis by (auto simp: calls_turn split: if_splits)
  qed
qed

text \<open>The storage through one turn. The two halves, put together, are the methods.\<close>

lemma requestStop_halves: "requestStop st = stop_write (getState st) st"
  by (simp add: requestStop_def stop_write_def)

lemma updateProgress_halves: "updateProgress i n st = progress_write (getState st) i n st"
  by (simp add: updateProgress_def progress_write_def)

lemma stop_seen_updateProgress:
  "stop_seen (updateProgress i n st) = stop_seen st"
  by (auto simp: stop_seen_def updateProgress_def getState_def setState_def split: option.splits)

lemma live_not_seen: "live st \<Longrightarrow> \<not> stop_seen st"
  by (auto simp: live_def stop_seen_def getState_def)

lemma flagged_seen: "flagged st \<Longrightarrow> stop_seen st"
  by (auto simp: flagged_def stop_seen_def getState_def)

lemma live_updateProgress: "live st \<Longrightarrow> live (updateProgress i n st)"
  by (auto simp: live_def updateProgress_def getState_def setState_def)

lemma live_requestStop: "live st \<Longrightarrow> flagged (requestStop st)"
  by (auto simp: live_def flagged_def requestStop_def getState_def setState_def)

lemma flagged_requestStop: "flagged st \<Longrightarrow> flagged (requestStop st)"
  by (auto simp: flagged_def requestStop_def getState_def setState_def)

lemma flagged_updateProgress: "flagged st \<Longrightarrow> flagged (updateProgress i n st)"
  by (auto simp: flagged_def updateProgress_def getState_def setState_def)

lemma live_stop_across: "live st \<Longrightarrow> flagged (stop_write (getState st) (updateProgress i n st))"
  by (auto simp: live_def flagged_def stop_write_def updateProgress_def getState_def setState_def)

lemma live_stop_inside: "live st \<Longrightarrow> live (progress_write (getState st) i n (requestStop st))"
  by (auto simp: live_def progress_write_def requestStop_def getState_def setState_def)

text \<open>
  A stop request of a turn that is written after the loop's read and is not overwritten
  by \<open>updateProgress\<close> leaves the flag in the storage; one that is overwritten leaves
  the storage as if nobody had asked.
\<close>

lemma progress_step_None: "progress_step None i n st = updateProgress i n st"
  by (simp add: progress_step_def)

lemma progress_step_flags:
  "live st \<Longrightarrow> p = BeforeUpdate \<or> p = AcrossUpdate \<or> p = AfterUpdate \<Longrightarrow>
   flagged (progress_step (Some p) i n st)"
  by (auto simp: progress_step_def live_requestStop flagged_updateProgress live_stop_across
      live_updateProgress)

lemma progress_step_loses:
  "live st \<Longrightarrow> live (progress_step (Some InsideUpdate) i n st)"
  by (simp add: progress_step_def live_stop_inside)

lemma arrive_flagged: "flagged st \<Longrightarrow> flagged (arrive env i st)"
  by (simp add: arrive_def flagged_requestStop)

lemma upload_loop_flagged:
  "flagged (store rs) \<Longrightarrow>
   body (upload_loop env i n xs rs) = body rs \<and> calls (upload_loop env i n xs rs) = calls rs"
proof (cases xs)
  case Nil
  then show ?thesis by simp
next
  case (Cons x xs')
  assume "flagged (store rs)"
  then have "stop_seen (arrive env i (store rs))"
    by (simp add: arrive_flagged flagged_seen)
  then show ?thesis unfolding Cons by (simp only: upload_loop_break) simp
qed

lemma substitutions_Cons:
  "substitutions env i (x # xs) c = substitutions env (Suc i) xs (substituted env i x c)"
  by simp

lemma substitutions_snoc:
  "substitutions env i (xs @ [x]) c =
     substituted env (i + length xs) x (substitutions env i xs c)"
  by (induction xs arbitrary: i c) simp_all

lemma uploads_from_Cons:
  "uploads_from env i (x # xs) =
     (if originalUrl x = [] then [] else [(i, x, uploaded env i x)]) @ uploads_from env (Suc i) xs"
  by simp

declare substitutions.simps(2) [simp del]
declare uploads_from.simps(2) [simp del]

lemma upload_loop_unstopped:
  "\<not> stop_seen (store rs) \<Longrightarrow> \<forall>j<length xs. stop_at env (i + j) = None \<Longrightarrow>
   body (upload_loop env i n xs rs) = substitutions env i xs (body rs) \<and>
   calls (upload_loop env i n xs rs) = calls rs @ uploads_from env i xs"
proof (induction xs arbitrary: i rs)
  case Nil
  then show ?case by simp
next
  case (Cons x xs)
  from Cons.prems(2) have here: "stop_at env i = None" by force
  from Cons.prems(2) have later: "\<forall>j<length xs. stop_at env (Suc i + j) = None" by force
  from here have arr: "arrive env i (store rs) = store rs" by (simp add: arrive_def)
  with Cons.prems(1) have go: "\<not> stop_seen (arrive env i (store rs))" by simp
  let ?rs = "upload_turn env i n x (arrive env i (store rs)) rs"
  have "\<not> stop_seen (store ?rs)"
    using Cons.prems(1) by (simp add: store_turn here arr progress_step_None stop_seen_updateProgress)
  from Cons.IH [OF this later] show ?case
    by (simp only: upload_loop_turn [OF go]) (simp add: substitutions_Cons uploads_from_Cons body_turn calls_turn)
qed

text \<open>
  The first stop request comes in the turn for the image at position \<open>m\<close> of the list.
  Made before the loop's read, it ends the loop after \<open>m\<close> images.
\<close>

lemma upload_loop_stopped:
  "live (store rs) \<Longrightarrow> m < length xs \<Longrightarrow> stop_at env (i + m) = Some BeforeRead \<Longrightarrow>
   \<forall>j<m. stop_at env (i + j) = None \<Longrightarrow>
   body (upload_loop env i n xs rs) = substitutions env i (take m xs) (body rs) \<and>
   calls (upload_loop env i n xs rs) = calls rs @ uploads_from env i (take m xs)"
proof (induction xs arbitrary: i m rs)
  case Nil
  then show ?case by simp
next
  case (Cons x xs)
  show ?case
  proof (cases m)
    case 0
    with Cons.prems have "arrive env i (store rs) = requestStop (store rs)"
      by (simp add: arrive_def)
    with Cons.prems(1) have "stop_seen (arrive env i (store rs))"
      by (simp add: live_requestStop flagged_seen)
    then show ?thesis using 0
      by (simp only: upload_loop_break) simp
  next
    case (Suc m')
    with Cons.prems have here: "stop_at env i = None" by force
    then have arr: "arrive env i (store rs) = store rs" by (simp add: arrive_def)
    with Cons.prems(1) have go: "\<not> stop_seen (arrive env i (store rs))"
      by (simp add: live_not_seen)
    from Cons.prems Suc have len: "m' < length xs" by simp
    from Cons.prems Suc have stop: "stop_at env (Suc i + m') = Some BeforeRead" by simp
    from Cons.prems(4) Suc have later: "\<forall>j<m'. stop_at env (Suc i + j) = None" by force
    let ?rs = "upload_turn env i n x (arrive env i (store rs)) rs"
    have "live (store ?rs)"
      using Cons.prems(1) by (simp add: store_turn here arr progress_step_None live_updateProgress)
    from Cons.IH [OF this len stop later] Suc show ?thesis
      by (simp only: upload_loop_turn [OF go]) (simp add: substitutions_Cons uploads_from_Cons body_turn calls_turn)
  qed
qed

text \<open>
  Made after the loop's read (and not overwritten by \<open>updateProgress\<close>), it ends the
  loop one image later: the image of that turn is still uploaded.
\<close>

lemma upload_loop_stopped_late:
  "live (store rs) \<Longrightarrow> m < length xs \<Longrightarrow> stop_at env (i + m) = Some p \<Longrightarrow>
   p = BeforeUpdate \<or> p = AcrossUpdate \<or> p = AfterUpdate \<Longrightarrow>
   \<forall>j<m. stop_at env (i + j) = None \<Longrightarrow>
   body (upload_loop env i n xs rs) = substitutions env i (take (Suc m) xs) (body rs) \<and>
   calls (upload_loop env i n xs rs) = calls rs @ uploads_from env i (take (Suc m) xs)"
proof (induction xs arbitrary: i m rs)
  case Nil
  then show ?case by simp
next
  case (Cons x xs)
  let ?rs = "upload_turn env i n x (arrive env i (store rs)) rs"
  show ?case
  proof (cases m)
    case 0
    with Cons.prems have here: "stop_at env i = Some p" by simp
    with Cons.prems(4) have arr: "arrive env i (store rs) = store rs"
      by (auto simp: arrive_def)
    with Cons.prems(1) have go: "\<not> stop_seen (arrive env i (store rs))"
      by (simp add: live_not_seen)
    have "flagged (store ?rs)"
      using Cons.prems(1,4) by (simp add: store_turn here arr progress_step_flags)
    from upload_loop_flagged [OF this] show ?thesis using 0
      by (simp only: upload_loop_turn [OF go])
         (simp add: substitutions_Cons uploads_from_Cons body_turn calls_turn)
  next
    case (Suc m')
    with Cons.prems have here: "stop_at env i = None" by force
    then have arr: "arrive env i (store rs) = store rs" by (simp add: arrive_def)
    with Cons.prems(1) have go: "\<not> stop_seen (arrive env i (store rs))"
      by (simp add: live_not_seen)
    from Cons.prems Suc have len: "m' < length xs" by simp
    from Cons.prems Suc have stop: "stop_at env (Suc i + m') = Some p" by simp
    from Cons.prems(5) Suc have later: "\<forall>j<m'. stop_at env (Suc i + j) = None" by force
    have "live (store ?rs)"
      using Cons.prems(1) by (simp add: store_turn here arr progress_step_None live_updateProgress)
    from Cons.IH [OF this len stop Cons.prems(4) later] Suc show ?thesis
      by (simp only: upload_loop_turn [OF go]) (simp add: substitutions_Cons uploads_from_Cons body_turn calls_turn)
  qed
qed

lemma uploads_from_index:
  "(j, img, r) \<in> set (uploads_from env i xs) \<Longrightarrow> i \<le> j \<and> j < i + length xs"
  by (induction xs arbitrary: i) (fastforce simp: uploads_from_Cons split: if_splits)+

lemma uploads_from_images:
  "map (\<lambda>(j, img, r). img) (uploads_from env i xs) = filter (\<lambda>img. originalUrl img \<noteq> []) xs"
  by (induction xs arbitrary: i) (auto simp: uploads_from_Cons)

lemma uploads_from_results:
  "(j, img, r) \<in> set (uploads_from env i xs) \<Longrightarrow>
   r = uploadImage (the_client env) (net env j) (originalUrl img) 0"
  by (induction xs arbitrary: i) (auto simp: uploads_from_Cons uploaded_def split: if_splits)

lemma imagesToProcess_filtered:
  "\<not> isGitHub content images \<Longrightarrow>
   imagesToProcess content images = filter (\<lambda>img. isInContent content (urlToCheck img)) images"
  by (simp add: imagesToProcess_def Let_def)

lemma imagesToProcess_github:
  "isGitHub content images \<Longrightarrow> imagesToProcess content images = images"
  by (simp add: imagesToProcess_def Let_def)

lemma process_body:
  "body (processImagesInContent env content images st) =
   body (upload_loop env 0 (length (imagesToProcess content images))
          (imagesToProcess content images)
          \<lparr>body = content,
           store = setState \<lparr>isUploading = True, currentIndex = 0,
                     totalImages = length (imagesToProcess content images),
                     startTime = now env, documentId = None, shouldStop = Some False\<rparr> st,
           calls = [], slept = []\<rparr>)"
  by (simp add: processImagesInContent_def Let_def)

lemma process_calls:
  "calls (processImagesInContent env content images st) =
   calls (upload_loop env 0 (length (imagesToProcess content images))
          (imagesToProcess content images)
          \<lparr>body = content,
           store = setState \<lparr>isUploading = True, currentIndex = 0,
                     totalImages = length (imagesToProcess content images),
                     startTime = now env, documentId = None, shouldStop = Some False\<rparr> st,
           calls = [], slept = []\<rparr>)"
  by (simp add: processImagesInContent_def Let_def)

text \<open>
  Stop requests that are all overwritten by \<open>updateProgress\<close> stop nothing.
\<close>

lemma upload_loop_stop_lost:
  "live (store rs) \<Longrightarrow>
   \<forall>j<length xs. stop_at env (i + j) = None \<or> stop_at env (i + j) = Some InsideUpdate \<Longrightarrow>
   body (upload_loop env i n xs rs) = substitutions env i xs (body rs) \<and>
   calls (upload_loop env i n xs rs) = calls rs @ uploads_from env i xs"
proof (induction xs arbitrary: i rs)
  case Nil
  then show ?case by simp
next
  case (Cons x xs)
  from Cons.prems(2) have here: "stop_at env i = None \<or> stop_at env i = Some InsideUpdate"
    by force
  from Cons.prems(2) have later:
    "\<forall>j<length xs. stop_at env (Suc i + j) = None \<or> stop_at env (Suc i + j) = Some InsideUpdate"
    by force
  from here have arr: "arrive env i (store rs) = store rs" by (auto simp: arrive_def)
  with Cons.prems(1) have go: "\<not> stop_seen (arrive env i (store rs))"
    by (simp add: live_not_seen)
  let ?rs = "upload_turn env i n x (arrive env i (store rs)) rs"
  have "live (store ?rs)"
    using Cons.prems(1) here
    by (auto simp: store_turn arr progress_step_None live_updateProgress progress_step_loses)
  from Cons.IH [OF this later] show ?case
    by (simp only: upload_loop_turn [OF go]) (simp add: substitutions_Cons uploads_from_Cons body_turn calls_turn)
qed

text \<open>The whole run, when the storage works.\<close>

lemma initial_state_live:
  "\<not> get_rejects st \<Longrightarrow> \<not> set_rejects st \<Longrightarrow>
   live (setState \<lparr>isUploading = True, currentIndex = 0, totalImages = n,
                   startTime = t, documentId = None, shouldStop = Some False\<rparr> st)"
  by (simp add: live_def setState_def)

lemma run_stopped_late:
  assumes "m < length (imagesToProcess content images)"
      and "stop_at env m = Some p"
      and "p = BeforeUpdate \<or> p = AcrossUpdate \<or> p = AfterUpdate"
      and "\<forall>j<m. stop_at env j = None"
      and "\<not> get_rejects st" and "\<not> set_rejects st"
  shows "body (processImagesInContent env content images st) =
           substitutions env 0 (take (Suc m) (imagesToProcess content images)) content \<and>
         calls (processImagesInContent env content images st) =
           uploads_from env 0 (take (Suc m) (imagesToProcess content images))"
proof -
  let ?todo = "imagesToProcess content images"
  let ?rs = "\<lparr>body = content,
           store = setState \<lparr>isUploading = True, currentIndex = 0,
                     totalImages = length ?todo,
                     startTime = now env, documentId = None, shouldStop = Some False\<rparr> st,
           calls = [], slept = []\<rparr>"
  have "live (store ?rs)" using assms(5,6) by (simp add: initial_state_live)
  moreover have "stop_at env (0 + m) = Some p" using assms(2) by simp
  moreover have "\<forall>j<m. stop_at env (0 + j) = None" using assms(4) by simp
  ultimately have
    "body (upload_loop env 0 (length ?todo) ?todo ?rs) =
       substitutions env 0 (take (Suc m) ?todo) (body ?rs) \<and>
     calls (upload_loop env 0 (length ?todo) ?todo ?rs) =
       calls ?rs @ uploads_from env 0 (take (Suc m) ?todo)"
    using assms(1,3) by (intro upload_loop_stopped_late)
  then show ?thesis by (simp add: process_body process_calls)
qed

lemma run_stopped:
  assumes "m < length (imagesToProcess content images)"
      and "stop_at env m = Some BeforeRead"
      and "\<forall>j<m. stop_at env j = None"
      and "\<not> get_rejects st" and "\<not> set_rejects st"
  shows "body (processImagesInContent env content images st) =
           substitutions env 0 (take m (imagesToProcess content images)) content \<and>
         calls (processImagesInContent env content images st) =
           uploads_from env 0 (take m (imagesToProcess content images))"
proof -
  let ?todo = "imagesToProcess content images"
  let ?rs = "\<lparr>body = content,
           store = setState \<lparr>isUploading = True, currentIndex = 0,
                     totalImages = length ?todo,
                     startTime = now env, documentId = None, shouldStop = Some False\<rparr> st,
           calls = [], slept = []\<rparr>"
  have "live (store ?rs)" using assms(4,5) by (simp add: initial_state_live)
  moreover have "stop_at env (0 + m) = Some BeforeRead" using assms(2) by simp
  moreover have "\<forall>j<m. stop_at env (0 + j) = None" using assms(3) by simp
  ultimately have
    "body (upload_loop env 0 (length ?todo) ?todo ?rs) =
       substitutions env 0 (take m ?todo) (body ?rs) \<and>
     calls (upload_loop env 0 (length ?todo) ?todo ?rs) =
       calls ?rs @ uploads_from env 0 (take m ?todo)"
    using assms(1) by (intro upload_loop_stopped)
  then show ?thesis by (simp add: process_body process_calls)
qed

lemma run_unstopped:
  assumes "\<forall>j<length (imagesToProcess content images). stop_at env j = None"
      and "set_rejects st \<longrightarrow> \<not> stop_seen st"
  shows "body (processImagesInContent env content images st) =
           substitutions env 0 (imagesToProcess content images) content \<and>
         calls (processImagesInContent env content images st) =
           uploads_from env 0 (imagesToProcess content images)"
proof -
  let ?todo = "imagesToProcess content images"
  let ?rs = "\<lparr>body = content,
           store = setState \<lparr>isUploading = True, currentIndex = 0,
                     totalImages = length ?todo,
                     startTime = now env, documentId = None, shouldStop = Some False\<rparr> st,
           calls = [], slept = []\<rparr>"
  have "\<not> stop_seen (store ?rs)"
    using assms(2) by (auto simp: stop_seen_def setState_def getState_def)
  moreover have "\<forall>j<length ?todo. stop_at env (0 + j) = None" using assms(1) by simp
  ultimately have
    "body (upload_loop env 0 (length ?todo) ?todo ?rs) = substitutions env 0 ?todo (body ?rs) \<and>
     calls (upload_loop env 0 (length ?todo) ?todo ?rs) = calls ?rs @ uploads_from env 0 ?todo"
    by (intro upload_loop_unstopped)
  then show ?thesis by (simp add: process_body process_calls)
qed

text \<open>
  A storage that cannot be read hides the stop flag: \<open>getState\<close> catches the rejection
  and returns \<open>null\<close>, for the loop and for \<open>requestStop\<close> alike, and the loop runs
  to its end whatever is asked.
\<close>

lemma unreadable_storage:
  assumes "get_rejects st"
  shows "\<not> stop_seen st" and "requestStop st = st" and "updateProgress i n st = st"
    and "stop_write (getState st) st = st" and "progress_write (getState st) i n st = st"
  using assms
  by (simp_all add: stop_seen_def requestStop_def updateProgress_def stop_write_def
      progress_write_def getState_def)

lemma upload_loop_unreadable:
  "get_rejects (store rs) \<Longrightarrow>
   body (upload_loop env i n xs rs) = substitutions env i xs (body rs) \<and>
   calls (upload_loop env i n xs rs) = calls rs @ uploads_from env i xs"
proof (induction xs arbitrary: i rs)
  case Nil
  then show ?case by simp
next
  case (Cons x xs)
  note un = unreadable_storage [OF Cons.prems]
  have arr: "arrive env i (store rs) = store rs" by (simp add: arrive_def un)
  then have go: "\<not> stop_seen (arrive env i (store rs))" by (simp add: un)
  let ?rs = "upload_turn env i n x (arrive env i (store rs)) rs"
  have "progress_step (stop_at env i) i n (store rs) = store rs"
    by (simp add: progress_step_def un split: option.splits stop_point.splits)
  then have "get_rejects (store ?rs)" using Cons.prems by (simp add: store_turn arr)
  from Cons.IH [OF this] show ?case
    by (simp only: upload_loop_turn [OF go])
       (simp add: substitutions_Cons uploads_from_Cons body_turn calls_turn)
qed

text \<open>The example runs: every upload is accepted and hosted at the same address.\<close>

lemma uploadImage_accepted:
  "\<not> startsWith u ''data:'' \<Longrightarrow>
   uploadImage wiki_client (rate_limited 0) u 0 = Inr (hosted, [])"
  using uploadImage_returned [of wiki_client "rate_limited 0" 0 u hosted]
  by (simp add: try_upload_rate_limited hosted_def)

lemma uploaded_quiet:
  "\<not> startsWith (originalUrl img) ''data:'' \<Longrightarrow> uploaded quiet_env i img = Inr (hosted, [])"
  by (simp add: uploaded_def quiet_env_def uploadImage_accepted)

lemma uploaded_stopping:
  "\<not> startsWith (originalUrl img) ''data:'' \<Longrightarrow>
   uploaded (stopping_env k p) i img = Inr (hosted, [])"
  by (simp add: uploaded_def stopping_env_def uploadImage_accepted)

lemma substituted_plain:
  "uploaded env i (plain_image u) = Inr (h, ds) \<Longrightarrow> u \<noteq> [] \<Longrightarrow> h \<noteq> u \<Longrightarrow>
   substituted env i (plain_image u) c = replaceImageUrlInContent c u h"
  by (simp add: substituted_def plain_image_def urlToCheck_def)

text \<open>
  Two runs that show what the statements below have to assume. With a storage whose
  reads are rejected, a stop request before the second image stops nothing. And a
  candidate without \<open>originalUrl\<close> is passed over by the loop, also on a page taken for
  a GitHub page.
\<close>

lemma stop_unseen_when_read_fails:
  "map fst (calls (processImagesInContent (stopping_env 1 BeforeRead)
      ''![a](http://a/1.png) ![b](http://a/2.png)''
      [plain_image ''http://a/1.png'', plain_image ''http://a/2.png'']
      (working_storage\<lparr>get_rejects := True\<rparr>))) = [0, 1]"
proof -
  let ?c = "''![a](http://a/1.png) ![b](http://a/2.png)''"
  let ?imgs = "[plain_image ''http://a/1.png'', plain_image ''http://a/2.png'']"
  have todo: "imagesToProcess ?c ?imgs = ?imgs"
    by (simp add: imagesToProcess_def isGitHub_def isInContent_def plain_image_def
        urlToCheck_def Let_def)
  have "calls (processImagesInContent (stopping_env 1 BeforeRead) ?c ?imgs
          (working_storage\<lparr>get_rejects := True\<rparr>)) =
        uploads_from (stopping_env 1 BeforeRead) 0 ?imgs"
    using upload_loop_unreadable [of
        "\<lparr>body = ?c,
          store = setState \<lparr>isUploading = True, currentIndex = 0, totalImages = length ?imgs,
                    startTime = now (stopping_env 1 BeforeRead), documentId = None,
                    shouldStop = Some False\<rparr> (working_storage\<lparr>get_rejects := True\<rparr>),
          calls = [], slept = []\<rparr>" "stopping_env 1 BeforeRead" 0 "length ?imgs" ?imgs]
    by (simp add: process_calls todo setState_def working_storage_def)
  then show ?thesis by (simp add: uploads_from_Cons plain_image_def)
qed

lemma candidate_without_address_skipped:
  "map fst (calls (processImagesInContent quiet_env ''see github.com/x''
      [plain_image ''https://camo.githubusercontent.com/1.png'', plain_image [],
       plain_image ''http://a/9.png''] working_storage)) = [0, 2]"
proof -
  let ?imgs = "[plain_image ''https://camo.githubusercontent.com/1.png'', plain_image [],
                plain_image ''http://a/9.png'']"
  have gh: "isGitHub ''see github.com/x'' ?imgs"
    by (simp add: isGitHub_def plain_image_def)
  have "calls (processImagesInContent quiet_env ''see github.com/x'' ?imgs working_storage) =
        uploads_from quiet_env 0 ?imgs"
    using run_unstopped [of "''see github.com/x''" ?imgs quiet_env working_storage]
    by (simp add: imagesToProcess_github [OF gh] quiet_env_def working_storage_def)
  then show ?thesis by (simp add: uploads_from_Cons plain_image_def)
qed

text \<open>
  C2, amended. Unless the page is taken for a GitHub page, an image reaches
  \<open>uploadImage\<close> only if it is one of the candidates and its \<open>markdownUrl\<close> (its
  \<open>originalUrl\<close> when that is absent or empty) is found in the body by one of the
  strategies: as a substring, by one of the three \<open>img\<close>/\<open>src\<close> expressions (which
  ignore letter case), or by the markdown image expression.
\<close>

theorem only_referenced_images_uploaded:
  assumes "\<not> isGitHub content images"
      and "(j, img, r) \<in> set (calls (processImagesInContent env content images st))"
  shows "img \<in> set images \<and>
         (includes_str content (urlToCheck img) \<or>
          regex_test True (htmlImgPattern1 (urlToCheck img)) content \<or>
          regex_test True (htmlImgPattern2 (urlToCheck img)) content \<or>
          regex_test True (htmlImgPattern3 (urlToCheck img)) content \<or>
          regex_test False (markdownPattern (urlToCheck img)) content)"
proof -
  from assms(2) have "img \<in> set (imagesToProcess content images)"
    using upload_loop_calls_from by (fastforce simp: process_calls)
  with assms(1) have "img \<in> set images \<and> isInContent content (urlToCheck img)"
    by (simp add: imagesToProcess_filtered)
  then show ?thesis
    by (auto simp: isInContent_def split: if_splits)
qed

text \<open>
  C3, amended. When the popup asks to stop after the loop has finished with image
  \<open>k - 1\<close> and before it reads the state for image \<open>k\<close>, nobody has asked before, and
  the storage works, then the body returned holds exactly the substitutions for the
  images before \<open>k\<close>, the calls of \<open>uploadImage\<close> are exactly those for the images
  before \<open>k\<close>, and no call is made for image \<open>k\<close> or a later one. By
  \<open>upload_loop_unstopped\<close>, \<open>substitutions\<close> and \<open>uploads_from\<close> are the body and
  the calls of the loop when it runs over a list to its end.
\<close>

theorem stop_between_images:
  assumes "k < length (imagesToProcess content images)"
      and "stop_at env k = Some BeforeRead" and "\<forall>j<k. stop_at env j = None"
      and "\<not> get_rejects st" and "\<not> set_rejects st"
  shows "body (processImagesInContent env content images st) =
           substitutions env 0 (take k (imagesToProcess content images)) content \<and>
         calls (processImagesInContent env content images st) =
           uploads_from env 0 (take k (imagesToProcess content images)) \<and>
         (\<forall>(j, img, r) \<in> set (calls (processImagesInContent env content images st)). j < k)"
proof -
  let ?todo = "imagesToProcess content images"
  note run = run_stopped [OF assms]
  have "\<forall>(j, img, r) \<in> set (uploads_from env 0 (take k ?todo)). j < k"
    using uploads_from_index [of _ _ _ env 0 "take k ?todo"] assms(1) by auto
  with run show ?thesis by simp
qed

text \<open>
  C9, amended. On a page taken for a GitHub page (the body contains \<open>github.com\<close> and
  some candidate's \<open>originalUrl\<close> contains \<open>camo.githubusercontent.com\<close>) the filter
  is skipped: the list handed to the loop is the whole candidate list, in its order. When
  nobody asks to stop during the run, and the storage does not hold a stop flag that the
  write of the initial state fails to replace, \<open>uploadImage\<close> is called, in list
  order, for every candidate that has an \<open>originalUrl\<close>, whether or not its address
  occurs in the body: the calls are those of the loop run to its end, each with what
  \<open>uploadImage\<close> returned for it, and the body holds the substitutions for all of them.
\<close>

theorem github_page_skips_filter:
  assumes "isGitHub content images"
  shows "imagesToProcess content images = images \<and>
         ((\<forall>j<length images. stop_at env j = None) \<and> (set_rejects st \<longrightarrow> \<not> stop_seen st) \<longrightarrow>
          calls (processImagesInContent env content images st) = uploads_from env 0 images \<and>
          map (\<lambda>(j, img, r). img) (calls (processImagesInContent env content images st)) =
            filter (\<lambda>img. originalUrl img \<noteq> []) images \<and>
          (\<forall>(j, img, r) \<in> set (calls (processImagesInContent env content images st)).
             r = uploadImage (the_client env) (net env j) (originalUrl img) 0) \<and>
          body (processImagesInContent env content images st) =
            substitutions env 0 images content)"
proof (intro conjI impI)
  show todo: "imagesToProcess content images = images"
    using assms by (rule imagesToProcess_github)
  assume quiet: "(\<forall>j<length images. stop_at env j = None) \<and>
                 (set_rejects st \<longrightarrow> \<not> stop_seen st)"
  then have run:
    "body (processImagesInContent env content images st) = substitutions env 0 images content \<and>
     calls (processImagesInContent env content images st) = uploads_from env 0 images"
    using run_unstopped [of content images env st] by (simp add: todo)
  then show "calls (processImagesInContent env content images st) = uploads_from env 0 images"
    by simp
  from run show "map (\<lambda>(j, img, r). img) (calls (processImagesInContent env content images st)) =
            filter (\<lambda>img. originalUrl img \<noteq> []) images"
    by (simp add: uploads_from_images)
  from run show "\<forall>(j, img, r) \<in> set (calls (processImagesInContent env content images st)).
             r = uploadImage (the_client env) (net env j) (originalUrl img) 0"
    using uploads_from_results [of _ _ _ env 0 images] by auto
  from run show "body (processImagesInContent env content images st) =
            substitutions env 0 images content"
    by simp
qed

text \<open>
  A page that links to \<open>github.com\<close> and has one candidate served by
  \<open>camo.githubusercontent.com\<close>: the candidate is uploaded although no strategy finds
  its address in the body.
\<close>

theorem orphan_uploaded_on_github_page:
  "calls (processImagesInContent quiet_env ''see github.com/x''
            [plain_image ''https://camo.githubusercontent.com/1.png''] working_storage) =
     [(0, plain_image ''https://camo.githubusercontent.com/1.png'', Inr (hosted, []))] \<and>
   \<not> isInContent ''see github.com/x''
       (urlToCheck (plain_image ''https://camo.githubusercontent.com/1.png''))"
proof -
  let ?img = "plain_image ''https://camo.githubusercontent.com/1.png''"
  have gh: "isGitHub ''see github.com/x'' [?img]"
    by (simp add: isGitHub_def plain_image_def)
  have up: "uploaded quiet_env 0 ?img = Inr (hosted, [])"
    by (rule uploaded_quiet) (simp add: plain_image_def)
  have org: "originalUrl ?img \<noteq> []" by (simp add: plain_image_def)
  have "calls (processImagesInContent quiet_env ''see github.com/x'' [?img] working_storage) =
        uploads_from quiet_env 0 [?img]"
    using run_unstopped [of "''see github.com/x''" "[?img]" quiet_env working_storage]
    by (simp add: imagesToProcess_github [OF gh] quiet_env_def working_storage_def)
  then have "calls (processImagesInContent quiet_env ''see github.com/x'' [?img] working_storage) =
        [(0, ?img, Inr (hosted, []))]"
    using up org by (simp add: uploads_from_Cons)
  moreover have "\<not> isInContent ''see github.com/x'' (urlToCheck ?img)"
    by (simp add: isInContent_def urlToCheck_def plain_image_def htmlImgPattern1_def
        htmlImgPattern2_def htmlImgPattern3_def markdownPattern_def lit_match_def)
  ultimately show ?thesis by simp
qed

theorem only_referenced_images_uploaded_witness:
  "\<not> isGitHub ''![a](http://a/1.png)'' [plain_image ''http://a/1.png'', plain_image ''http://a/9.png''] \<and>
   calls (processImagesInContent quiet_env ''![a](http://a/1.png)''
            [plain_image ''http://a/1.png'', plain_image ''http://a/9.png''] working_storage) =
     [(0, plain_image ''http://a/1.png'', Inr (hosted, []))] \<and>
   includes_str ''![a](http://a/1.png)'' (urlToCheck (plain_image ''http://a/1.png''))"
proof -
  let ?c = "''![a](http://a/1.png)''"
  let ?imgs = "[plain_image ''http://a/1.png'', plain_image ''http://a/9.png'']"
  have ngh: "\<not> isGitHub ?c ?imgs"
    by (simp add: isGitHub_def)
  have orphan: "\<not> isInContent ?c ''http://a/9.png''"
    by (simp add: isInContent_def htmlImgPattern1_def
        htmlImgPattern2_def htmlImgPattern3_def markdownPattern_def lit_match_def)
  have found: "isInContent ?c ''http://a/1.png''"
    by (simp add: isInContent_def)
  have todo: "imagesToProcess ?c ?imgs = [plain_image ''http://a/1.png'']"
    using orphan found unfolding imagesToProcess_filtered [OF ngh]
    by (simp add: urlToCheck_def plain_image_def)
  have up: "uploaded quiet_env 0 (plain_image ''http://a/1.png'') = Inr (hosted, [])"
    by (rule uploaded_quiet) (simp add: plain_image_def)
  have org: "originalUrl (plain_image ''http://a/1.png'') \<noteq> []" by (simp add: plain_image_def)
  have "calls (processImagesInContent quiet_env ?c ?imgs working_storage) =
          uploads_from quiet_env 0 [plain_image ''http://a/1.png'']"
    using run_unstopped [of ?c ?imgs quiet_env working_storage]
    by (simp add: todo quiet_env_def working_storage_def)
  then have run: "calls (processImagesInContent quiet_env ?c ?imgs working_storage) =
               [(0, plain_image ''http://a/1.png'', Inr (hosted, []))]"
    using up org by (simp add: uploads_from_Cons)
  then have "(0, plain_image ''http://a/1.png'', Inr (hosted, [])) \<in>
               set (calls (processImagesInContent quiet_env ?c ?imgs working_storage))"
    by simp
  from only_referenced_images_uploaded [OF ngh this] ngh run show ?thesis
    by (simp add: urlToCheck_def plain_image_def)
qed

text \<open>
  Three images, all referenced in the body, and a stop request that arrives while the
  loop pauses before the upload of the second one, after the first has been completed:
  the second image is still uploaded and substituted, and only the third is left out.
\<close>

theorem stop_during_pause_uploads_next:
  "stop_at (stopping_env 1 AfterUpdate) 1 = Some AfterUpdate \<and>
   calls (processImagesInContent (stopping_env 1 AfterUpdate)
            ''![a](http://a/1.png) ![b](http://a/2.png) ![c](http://a/3.png)''
            [plain_image ''http://a/1.png'', plain_image ''http://a/2.png'',
             plain_image ''http://a/3.png''] working_storage) =
     [(0, plain_image ''http://a/1.png'', Inr (hosted, [])),
      (1, plain_image ''http://a/2.png'', Inr (hosted, []))] \<and>
   body (processImagesInContent (stopping_env 1 AfterUpdate)
            ''![a](http://a/1.png) ![b](http://a/2.png) ![c](http://a/3.png)''
            [plain_image ''http://a/1.png'', plain_image ''http://a/2.png'',
             plain_image ''http://a/3.png''] working_storage) =
     ''![a](https://wiki.example/api/attachments.redirect?id=a1) ![b](https://wiki.example/api/attachments.redirect?id=a1) ![c](http://a/3.png)''"
proof -
  let ?env = "stopping_env 1 AfterUpdate"
  let ?c = "''![a](http://a/1.png) ![b](http://a/2.png) ![c](http://a/3.png)''"
  let ?imgs = "[plain_image ''http://a/1.png'', plain_image ''http://a/2.png'',
                plain_image ''http://a/3.png'']"
  have todo: "imagesToProcess ?c ?imgs = ?imgs"
    by (simp add: imagesToProcess_def isGitHub_def isInContent_def plain_image_def
        urlToCheck_def Let_def)
  have stop: "stop_at ?env 1 = Some AfterUpdate" by (simp add: stopping_env_def)
  have before: "\<forall>j<1. stop_at ?env j = None" by (simp add: stopping_env_def)
  have up1: "uploaded ?env 0 (plain_image ''http://a/1.png'') = Inr (hosted, [])"
    by (rule uploaded_stopping) (simp add: plain_image_def)
  have up2: "uploaded ?env (Suc 0) (plain_image ''http://a/2.png'') = Inr (hosted, [])"
    by (rule uploaded_stopping) (simp add: plain_image_def)
  have r1: "replaceImageUrlInContent ?c ''http://a/1.png'' hosted =
      ''![a](https://wiki.example/api/attachments.redirect?id=a1) ![b](http://a/2.png) ![c](http://a/3.png)''"
    by (simp add: replaceImageUrlInContent_def split_str_def hosted_def Let_def)
  have r2: "replaceImageUrlInContent
      ''![a](https://wiki.example/api/attachments.redirect?id=a1) ![b](http://a/2.png) ![c](http://a/3.png)''
      ''http://a/2.png'' hosted =
      ''![a](https://wiki.example/api/attachments.redirect?id=a1) ![b](https://wiki.example/api/attachments.redirect?id=a1) ![c](http://a/3.png)''"
    by (simp add: replaceImageUrlInContent_def split_str_def hosted_def Let_def)
  have s1: "substituted ?env 0 (plain_image ''http://a/1.png'') ?c =
              replaceImageUrlInContent ?c ''http://a/1.png'' hosted"
    by (rule substituted_plain [OF up1]) (simp_all add: hosted_def)
  have s2: "\<And>c. substituted ?env (Suc 0) (plain_image ''http://a/2.png'') c =
              replaceImageUrlInContent c ''http://a/2.png'' hosted"
    by (rule substituted_plain [OF up2]) (simp_all add: hosted_def)
  have org: "originalUrl (plain_image ''http://a/1.png'') \<noteq> []"
            "originalUrl (plain_image ''http://a/2.png'') \<noteq> []"
    by (simp_all add: plain_image_def)
  have "body (processImagesInContent ?env ?c ?imgs working_storage) =
           substitutions ?env 0 (take (Suc 1) (imagesToProcess ?c ?imgs)) ?c \<and>
        calls (processImagesInContent ?env ?c ?imgs working_storage) =
           uploads_from ?env 0 (take (Suc 1) (imagesToProcess ?c ?imgs))"
    by (rule run_stopped_late [OF _ stop _ before])
       (simp_all add: todo working_storage_def)
  then show ?thesis
    using stop up1 up2 org s1 s2 r1 r2
    by (simp add: todo substitutions_Cons uploads_from_Cons)
qed

theorem stop_between_images_witness:
  "body (processImagesInContent (stopping_env 1 BeforeRead)
           ''![a](http://a/1.png) ![b](http://a/2.png)''
           [plain_image ''http://a/1.png'', plain_image ''http://a/2.png''] working_storage) =
     ''![a](https://wiki.example/api/attachments.redirect?id=a1) ![b](http://a/2.png)'' \<and>
   calls (processImagesInContent (stopping_env 1 BeforeRead)
           ''![a](http://a/1.png) ![b](http://a/2.png)''
           [plain_image ''http://a/1.png'', plain_image ''http://a/2.png''] working_storage) =
     [(0, plain_image ''http://a/1.png'', Inr (hosted, []))]"
proof -
  let ?env = "stopping_env 1 BeforeRead"
  let ?c = "''![a](http://a/1.png) ![b](http://a/2.png)''"
  let ?imgs = "[plain_image ''http://a/1.png'', plain_image ''http://a/2.png'']"
  have todo: "imagesToProcess ?c ?imgs = ?imgs"
    by (simp add: imagesToProcess_def isGitHub_def isInContent_def plain_image_def
        urlToCheck_def Let_def)
  have k: "1 < length (imagesToProcess ?c ?imgs)" by (simp add: todo)
  have stop: "stop_at ?env 1 = Some BeforeRead" by (simp add: stopping_env_def)
  have before: "\<forall>j<1. stop_at ?env j = None" by (simp add: stopping_env_def)
  have up1: "uploaded ?env 0 (plain_image ''http://a/1.png'') = Inr (hosted, [])"
    by (rule uploaded_stopping) (simp add: plain_image_def)
  have r1: "replaceImageUrlInContent ?c ''http://a/1.png'' hosted =
      ''![a](https://wiki.example/api/attachments.redirect?id=a1) ![b](http://a/2.png)''"
    by (simp add: replaceImageUrlInContent_def split_str_def hosted_def Let_def)
  have s1: "substituted ?env 0 (plain_image ''http://a/1.png'') ?c =
              replaceImageUrlInContent ?c ''http://a/1.png'' hosted"
    by (rule substituted_plain [OF up1]) (simp_all add: hosted_def)
  have org: "originalUrl (plain_image ''http://a/1.png'') \<noteq> []"
    by (simp add: plain_image_def)
  show ?thesis
    using stop_between_images [OF k stop before, of working_storage] up1 org s1 r1
    by (simp add: todo working_storage_def substitutions_Cons uploads_from_Cons)
qed

text \<open>
  A page taken for a GitHub page, with two candidates, and a stop request after the
  first image has been completed: the second candidate is never uploaded.
\<close>

theorem github_candidate_left_after_stop:
  "isGitHub ''see github.com/x''
     [plain_image ''https://camo.githubusercontent.com/1.png'', plain_image ''http://a/9.png''] \<and>
   calls (processImagesInContent (stopping_env 1 BeforeRead) ''see github.com/x''
     [plain_image ''https://camo.githubusercontent.com/1.png'', plain_image ''http://a/9.png'']
     working_storage) =
     [(0, plain_image ''https://camo.githubusercontent.com/1.png'', Inr (hosted, []))]"
proof -
  let ?env = "stopping_env 1 BeforeRead"
  let ?c = "''see github.com/x''"
  let ?imgs = "[plain_image ''https://camo.githubusercontent.com/1.png'',
                plain_image ''http://a/9.png'']"
  have gh: "isGitHub ?c ?imgs"
    by (simp add: isGitHub_def plain_image_def)
  have todo: "imagesToProcess ?c ?imgs = ?imgs" using gh by (rule imagesToProcess_github)
  have stop: "stop_at ?env 1 = Some BeforeRead" by (simp add: stopping_env_def)
  have before: "\<forall>j<1. stop_at ?env j = None" by (simp add: stopping_env_def)
  have up1: "uploaded ?env 0 (plain_image ''https://camo.githubusercontent.com/1.png'') =
               Inr (hosted, [])"
    by (rule uploaded_stopping) (simp add: plain_image_def)
  have org: "originalUrl (plain_image ''https://camo.githubusercontent.com/1.png'') \<noteq> []"
    by (simp add: plain_image_def)
  have "body (processImagesInContent ?env ?c ?imgs working_storage) =
           substitutions ?env 0 (take 1 (imagesToProcess ?c ?imgs)) ?c \<and>
        calls (processImagesInContent ?env ?c ?imgs working_storage) =
           uploads_from ?env 0 (take 1 (imagesToProcess ?c ?imgs))"
    by (rule run_stopped [OF _ stop before]) (simp_all add: todo working_storage_def)
  then show ?thesis using gh up1 org by (simp add: todo uploads_from_Cons)
qed

theorem github_page_skips_filter_witness:
  "isGitHub ''see github.com/x ![n](HTTP://A/9.PNG)''
     [plain_image ''https://camo.githubusercontent.com/1.png'', plain_image ''HTTP://A/9.PNG''] \<and>
   calls (processImagesInContent quiet_env ''see github.com/x ![n](HTTP://A/9.PNG)''
     [plain_image ''https://camo.githubusercontent.com/1.png'', plain_image ''HTTP://A/9.PNG'']
     working_storage) =
     [(0, plain_image ''https://camo.githubusercontent.com/1.png'', Inr (hosted, [])),
      (1, plain_image ''HTTP://A/9.PNG'', Inr (hosted, []))] \<and>
   body (processImagesInContent quiet_env ''see github.com/x ![n](HTTP://A/9.PNG)''
     [plain_image ''https://camo.githubusercontent.com/1.png'', plain_image ''HTTP://A/9.PNG'']
     working_storage) =
     ''see github.com/x ![n](https://wiki.example/api/attachments.redirect?id=a1)''"
proof -
  let ?c = "''see github.com/x ![n](HTTP://A/9.PNG)''"
  let ?camo = "plain_image ''https://camo.githubusercontent.com/1.png''"
  let ?imgs = "[?camo, plain_image ''HTTP://A/9.PNG'']"
  have gh: "isGitHub ?c ?imgs"
    by (simp add: isGitHub_def plain_image_def)
  have quiet: "(\<forall>j<length ?imgs. stop_at quiet_env j = None) \<and>
               (set_rejects working_storage \<longrightarrow> \<not> stop_seen working_storage)"
    by (simp add: quiet_env_def working_storage_def)
  have up1: "uploaded quiet_env 0 ?camo = Inr (hosted, [])"
    by (rule uploaded_quiet) (simp add: plain_image_def)
  have up2: "uploaded quiet_env (Suc 0) (plain_image ''HTTP://A/9.PNG'') = Inr (hosted, [])"
    by (rule uploaded_quiet) (simp add: plain_image_def)
  have org: "originalUrl ?camo \<noteq> []" "originalUrl (plain_image ''HTTP://A/9.PNG'') \<noteq> []"
    by (simp_all add: plain_image_def)
  have r1: "replaceImageUrlInContent ?c ''https://camo.githubusercontent.com/1.png'' hosted = ?c"
    by (simp add: replaceImageUrlInContent_def split_str_def hosted_def Let_def
        markdownImagePattern_def htmlImgPattern_def simpleHtmlImgPattern_def lit_match_def)
  have r2: "replaceImageUrlInContent ?c ''HTTP://A/9.PNG'' hosted =
              ''see github.com/x ![n](https://wiki.example/api/attachments.redirect?id=a1)''"
    by (simp add: replaceImageUrlInContent_def split_str_def hosted_def Let_def)
  have s1: "substituted quiet_env 0 ?camo ?c =
              replaceImageUrlInContent ?c ''https://camo.githubusercontent.com/1.png'' hosted"
    by (rule substituted_plain [OF up1]) (simp_all add: hosted_def)
  have s2: "substituted quiet_env (Suc 0) (plain_image ''HTTP://A/9.PNG'') ?c =
              replaceImageUrlInContent ?c ''HTTP://A/9.PNG'' hosted"
    by (rule substituted_plain [OF up2]) (simp_all add: hosted_def)
  from github_page_skips_filter [OF gh, of quiet_env working_storage] quiet gh up1 up2 org
    s1 r1 s2 r2
  show ?thesis
    by (simp add: substitutions_Cons uploads_from_Cons body_turn calls_turn)
qed

section \<open>Properties of replaceImageUrlInContent\<close>

lemma split_from_nonempty: "split_from sep acc s \<noteq> []"
  by (induction sep acc s rule: split_from.induct) auto

lemma join_str_Cons: "ys \<noteq> [] \<Longrightarrow> join_str sep (x # ys) = x @ sep @ join_str sep ys"
  by (cases ys) auto

lemma startsWith_drop_sep:
  "sep \<noteq> [] \<Longrightarrow> startsWith (c # cs) sep \<Longrightarrow> c # cs = sep @ drop (length sep - 1) cs"
proof -
  assume "sep \<noteq> []" and "startsWith (c # cs) sep"
  then obtain r where r: "c # cs = sep @ r" by (auto simp: startsWith_append)
  with \<open>sep \<noteq> []\<close> obtain t where t: "sep = c # t" by (cases sep) auto
  with r have "cs = t @ r" by simp
  then have "drop (length sep - 1) cs = r" using t by simp
  with r show ?thesis by simp
qed

lemma join_split_from:
  "sep \<noteq> [] \<Longrightarrow> join_str sep (split_from sep acc s) = acc @ s"
proof (induction sep acc s rule: split_from.induct)
  case (1 sep acc)
  then show ?case by simp
next
  case (2 sep acc c cs)
  show ?case
  proof (cases "startsWith (c # cs) sep")
    case True
    have "join_str sep (split_from sep acc (c # cs)) =
          acc @ sep @ join_str sep (split_from sep [] (drop (length sep - 1) cs))"
      using True by (simp add: join_str_Cons split_from_nonempty)
    also have "\<dots> = acc @ sep @ drop (length sep - 1) cs"
      using "2.IH"(1) [OF True "2.prems"] by simp
    also have "\<dots> = acc @ c # cs"
      using startsWith_drop_sep [OF "2.prems" True] by simp
    finally show ?thesis .
  next
    case False
    then show ?thesis using "2.IH"(2) [OF False "2.prems"] by simp
  qed
qed

lemma startsWith_extend: "startsWith x p \<Longrightarrow> startsWith (x @ t) p"
  by (auto simp: startsWith_append)

lemma includes_str_position:
  "p \<noteq> [] \<Longrightarrow> includes_str s p \<Longrightarrow> \<exists>k<length s. startsWith (drop k s) p"
proof -
  assume ne: "p \<noteq> []" and "includes_str s p"
  then obtain k where k: "startsWith (drop k s) p" unfolding includes_str_drop by blast
  have "k < length s"
  proof (rule ccontr)
    assume "\<not> k < length s"
    then have "drop k s = []" by simp
    with k ne show False by (cases p) auto
  qed
  with k show ?thesis by blast
qed

lemma split_from_pieces:
  "sep \<noteq> [] \<Longrightarrow> \<forall>i<length acc. \<not> startsWith (drop i (acc @ s)) sep \<Longrightarrow>
   \<forall>p \<in> set (split_from sep acc s). \<not> includes_str p sep"
proof (induction sep acc s rule: split_from.induct)
  case (1 sep acc)
  show ?case
  proof
    fix p assume "p \<in> set (split_from sep acc [])"
    then have p: "p = acc" by simp
    show "\<not> includes_str p sep"
    proof
      assume "includes_str p sep"
      from includes_str_position [OF "1.prems"(1) this] p "1.prems"(2) show False by auto
    qed
  qed
next
  case (2 sep acc c cs)
  have acc_free: "\<not> includes_str acc sep"
  proof
    assume "includes_str acc sep"
    from includes_str_position [OF "2.prems"(1) this] obtain k where
      k: "k < length acc" "startsWith (drop k acc) sep" by blast
    then have "startsWith (drop k acc @ (c # cs)) sep" using startsWith_extend by blast
    with k "2.prems"(2) show False by simp
  qed
  show ?case
  proof (cases "startsWith (c # cs) sep")
    case True
    have "\<forall>i<length ([]::string). \<not> startsWith (drop i ([] @ drop (length sep - 1) cs)) sep"
      by simp
    from "2.IH"(1) [OF True "2.prems"(1) this] acc_free True show ?thesis by simp
  next
    case False
    have "\<forall>i<length (acc @ [c]). \<not> startsWith (drop i ((acc @ [c]) @ cs)) sep"
    proof (intro allI impI)
      fix i assume "i < length (acc @ [c])"
      then consider "i < length acc" | "i = length acc" by force
      then show "\<not> startsWith (drop i ((acc @ [c]) @ cs)) sep"
      proof cases
        case 1
        with "2.prems"(2) show ?thesis by simp
      next
        case 2
        with False show ?thesis by simp
      qed
    qed
    from "2.IH"(2) [OF False "2.prems"(1) this] False show ?thesis by simp
  qed
qed

lemma split_from_two:
  "sep \<noteq> [] \<Longrightarrow> includes_str s sep \<Longrightarrow> 2 \<le> length (split_from sep acc s)"
proof (induction sep acc s rule: split_from.induct)
  case (1 sep acc)
  then show ?case by simp
next
  case (2 sep acc c cs)
  show ?case
  proof (cases "startsWith (c # cs) sep")
    case True
    then show ?thesis
      using split_from_nonempty [of sep "[]" "drop (length sep - 1) cs"]
      by (cases "split_from sep [] (drop (length sep - 1) cs)") auto
  next
    case False
    with "2.prems"(2) have "includes_str cs sep" by simp
    from "2.IH"(2) [OF False "2.prems"(1) this] False show ?thesis by simp
  qed
qed

lemma length_join_str:
  "ps \<noteq> [] \<Longrightarrow>
   length (join_str x ps) = sum_list (map length ps) + (length ps - 1) * length x"
  by (induction x ps rule: join_str.induct) auto

lemma join_str_inj:
  assumes "2 \<le> length ps" and "join_str n ps = join_str u ps"
  shows "n = u"
proof -
  from assms(1) obtain p q rest where ps: "ps = p # q # rest"
    by (cases ps; cases "tl ps") auto
  have "length (join_str n ps) = length (join_str u ps)" using assms(2) by simp
  then have "(length ps - 1) * length n = (length ps - 1) * length u"
    using ps by (simp add: length_join_str)
  moreover have "length ps - 1 \<noteq> 0" using ps by simp
  ultimately have len: "length n = length u" by (simp only: mult_cancel1) simp
  from assms(2) ps have "n @ join_str n (q # rest) = u @ join_str u (q # rest)" by simp
  with len show ?thesis by simp
qed

lemma exact_replacement:
  assumes "includes_str c u" and "u \<noteq> []" and "n \<noteq> u"
  shows "c = join_str u (split_str c u) \<and>
         (\<forall>p \<in> set (split_str c u). \<not> includes_str p u) \<and>
         replaceImageUrlInContent c u n = join_str n (split_str c u)"
proof -
  have sp: "split_str c u = split_from u [] c" using assms(2) by (simp add: split_str_def)
  have whole: "join_str u (split_str c u) = c"
    using join_split_from [OF assms(2), of "[]" c] sp by simp
  have free: "\<forall>p \<in> set (split_str c u). \<not> includes_str p u"
    using split_from_pieces [OF assms(2), of "[]" c] sp by simp
  have two: "2 \<le> length (split_str c u)"
    using split_from_two [OF assms(2) assms(1), of "[]"] sp by simp
  have "join_str n (split_str c u) \<noteq> c"
  proof
    assume "join_str n (split_str c u) = c"
    with whole have "join_str n (split_str c u) = join_str u (split_str c u)" by simp
    from join_str_inj [OF two this] assms(3) show False by simp
  qed
  then have "replaceImageUrlInContent c u n = join_str n (split_str c u)"
    using assms(1) by (simp add: replaceImageUrlInContent_def Let_def)
  with whole free show ?thesis by simp
qed

lemma html_only_replacement:
  assumes "\<not> includes_str c u"
  shows "replaceImageUrlInContent c u n =
           regex_replace True (simpleHtmlImgPattern u)
             (\<lambda>ps. ''<img src='' @ [CHR 0x22] @ n @ [CHR 0x22] @ ''>'')
             (regex_replace True (htmlImgPattern u)
                (\<lambda>ps. concat (take 5 ps) @ n @ concat (drop 6 ps)) c)"
proof -
  have "Lit ('']('' @ u @ '')'') \<in> set (markdownImagePattern u)"
    by (simp add: markdownImagePattern_def)
  from regex_replace_absent [OF assms this] assms show ?thesis
    by (simp add: replaceImageUrlInContent_def Let_def)
qed

lemma no_replacement:
  assumes "\<not> includes_ci c u"
  shows "replaceImageUrlInContent c u n = c"
proof -
  from assms have absent: "\<not> includes_str c u" using includes_str_imp_ci by blast
  have "Lit ([] @ u @ []) \<in> set (htmlImgPattern u)"
    by (simp add: htmlImgPattern_def)
  from regex_replace_absent_ci [OF assms this] have html:
    "\<And>f. regex_replace True (htmlImgPattern u) f c = c" .
  have "Lit ([] @ u @ []) \<in> set (simpleHtmlImgPattern u)"
    by (simp add: simpleHtmlImgPattern_def)
  from regex_replace_absent_ci [OF assms this] have simple:
    "\<And>f. regex_replace True (simpleHtmlImgPattern u) f c = c" .
  show ?thesis
    unfolding html_only_replacement [OF absent] by (simp add: html simple)
qed

text \<open>
  The first \<open>img\<close>/\<open>src\<close> expression, on a body in which the address occurs once,
  up to letter case: when the expression finds a tag, this occurrence is the one it
  replaces, and the rest of the body is kept.
\<close>

lemma html_replace_single:
  assumes len: "length v = length u"
      and ci: "startsWith_ci v u"
      and before: "\<not> includes_ci (a @ butlast v) u"
      and after: "\<not> includes_ci (tl v @ b) u"
      and found: "regex_test True (htmlImgPattern u) (a @ v @ b)"
  shows "regex_replace True (htmlImgPattern u)
           (\<lambda>ps. concat (take 5 ps) @ n @ concat (drop 6 ps)) (a @ v @ b) = a @ n @ b"
proof -
  define s where "s = a @ v @ b"
  let ?f = "\<lambda>ps. concat (take 5 ps) @ n @ concat (drop 6 ps)"
  from found have "regex_test True (htmlImgPattern u) s" unfolding s_def .
  from regex_replace_first [OF this, of ?f] obtain k ps where
    m: "match_items True (htmlImgPattern u) (drop k s) = Some ps" and
    r: "regex_replace True (htmlImgPattern u) ?f s =
          take k s @ regex_replace True (htmlImgPattern u) ?f (drop k s)" by blast
  have lps: "length ps = 9" using match_items_length [OF m] by (simp add: htmlImgPattern_def)
  have five: "htmlImgPattern u ! 5 = Lit u" "5 < length (htmlImgPattern u)"
    by (simp_all add: htmlImgPattern_def)
  let ?h = "concat (take 5 ps)"
  define t where "t = drop (length ?h) (drop k s)"
  define rest where "rest = drop (length (concat ps)) (drop k s)"
  have piece: "lit_match True u t \<and> ps ! 5 = take (length u) t"
    unfolding t_def by (rule match_items_piece [OF m five(2) five(1)])
  have tt: "t = drop (length ?h + k) (a @ v @ b)"
    unfolding t_def s_def by (simp only: drop_drop)
  from piece have "startsWith_ci t u" by (simp add: lit_match_def)
  then have occ: "startsWith_ci (drop (length ?h + k) (a @ v @ b)) u" unfolding tt .
  from single_occurrence [OF len before after occ] have pos: "length ?h + k = length a" .
  have "t = drop (length a) (a @ v @ b)" by (simp only: tt pos)
  then have "t = v @ b" by simp
  with piece len have p5v: "ps ! 5 = v" by simp
  have vne: "v \<noteq> []"
  proof
    assume "v = []"
    with len have "u = []" by simp
    then have "includes_ci (a @ butlast v) u"
      unfolding includes_ci_drop using startsWith_ci.simps(1) by blast
    with before show False by simp
  qed
  have split: "ps = take 5 ps @ ps ! 5 # drop 6 ps"
    using lps id_take_nth_drop [of 5 ps] by simp
  have cps: "concat ps = ?h @ v @ concat (drop 6 ps)"
    by (subst split) (simp add: p5v)
  have whole: "drop k s = concat ps @ rest"
    unfolding rest_def by (rule match_items_prefix [OF m])
  have "s = take k s @ concat ps @ rest" using whole by (metis append_take_drop_id)
  then have "s = (take k s @ ?h) @ (v @ (concat (drop 6 ps) @ rest))"
    by (simp only: cps append_assoc)
  with s_def have eq: "a @ (v @ b) = (take k s @ ?h) @ (v @ (concat (drop 6 ps) @ rest))"
    by (rule trans [OF sym])
  have "k \<le> length s" using pos by (simp add: s_def)
  then have "length a = length (take k s @ ?h)" using pos by simp
  with eq have ab: "a = take k s @ ?h \<and> v @ b = v @ (concat (drop 6 ps) @ rest)"
    using append_eq_append_conv [of a "take k s @ ?h" "v @ b" "v @ (concat (drop 6 ps) @ rest)"]
    by blast
  then have b: "b = concat (drop 6 ps) @ rest" by simp
  have "\<not> includes_ci rest u"
  proof
    assume "includes_ci rest u"
    then have "includes_ci ((tl v @ concat (drop 6 ps)) @ rest) u" by (rule includes_ci_suffix)
    with after b show False by simp
  qed
  moreover have "Lit ([] @ u @ []) \<in> set (htmlImgPattern u)" by (simp add: htmlImgPattern_def)
  ultimately have unchanged: "regex_replace True (htmlImgPattern u) ?f rest = rest"
    by (rule regex_replace_absent_ci)
  have ne: "concat ps \<noteq> []" using cps vne by simp
  have "regex_replace True (htmlImgPattern u) ?f (drop k s) =
          ?f ps @ regex_replace True (htmlImgPattern u) ?f rest"
    unfolding rest_def by (rule regex_replace_at_match [OF m ne])
  with r unchanged have
    "regex_replace True (htmlImgPattern u) ?f s = take k s @ ?f ps @ rest" by simp
  also have "\<dots> = (take k s @ ?h) @ n @ (concat (drop 6 ps) @ rest)" by simp
  also have "\<dots> = a @ n @ b" using ab b by simp
  finally show ?thesis unfolding s_def .
qed

lemma many_exists:
  assumes "k \<le> length (takeWhile (in_cls c) s)" and "n \<le> k"
      and "match_items ci p (drop k s) \<noteq> None"
  shows "match_items ci (Many c n # p) s \<noteq> None"
proof -
  let ?f = "\<lambda>k. map_option ((#) (take k s)) (match_items ci p (drop k s))"
  have "?f k \<noteq> None" using assms(3) by simp
  from first_down_exists [OF assms(2) assms(1), of ?f, OF this] show ?thesis by simp
qed

lemma lit_exists:
  assumes "lit_match ci l (l' @ t)" and "length l' = length l"
      and "match_items ci p t \<noteq> None"
  shows "match_items ci (Lit l # p) (l' @ t) \<noteq> None"
  using assms by simp

lemma one_exists:
  assumes "in_cls c x" and "match_items ci p t \<noteq> None"
  shows "match_items ci (One c # p) (x # t) \<noteq> None"
  using assms by simp

lemma img_tag_found:
  assumes w: "w \<in> set ws_chars" and q: "q \<in> set [CHR 0x22, CHR 0x27]"
      and q': "q' \<in> set [CHR 0x22, CHR 0x27]"
      and attrs: "CHR ''>'' \<notin> set attrs" and rest: "CHR ''>'' \<notin> set rest"
      and len: "length v = length u" and ci: "startsWith_ci v u"
  shows "regex_test True (htmlImgPattern u) (pre @ img_tag attrs w q v q' rest @ post)"
proof -
  have m1: "match_items True [Lit ''>''] (''>'' @ post) \<noteq> None"
    by (simp add: lit_match_def)
  have "takeWhile (in_cls (NoneOf ''>'')) (rest @ ''>'' @ post) = rest"
    using rest by (simp add: takeWhile_append takeWhile_eq_all_conv)
  then have "length rest \<le> length (takeWhile (in_cls (NoneOf ''>'')) (rest @ ''>'' @ post))"
    by simp
  moreover have "match_items True [Lit ''>''] (drop (length rest) (rest @ ''>'' @ post)) \<noteq> None"
    using m1 by simp
  ultimately have m2:
    "match_items True [Many (NoneOf ''>'') 0, Lit ''>''] (rest @ ''>'' @ post) \<noteq> None"
    by (intro many_exists [of "length rest"]) simp_all
  have m3: "match_items True [One quote_cls, Many (NoneOf ''>'') 0, Lit ''>'']
              (q' # rest @ ''>'' @ post) \<noteq> None"
    using q' by (intro one_exists m2) (simp add: quote_cls_def)
  have "lit_match True u (v @ q' # rest @ ''>'' @ post)"
    using ci by (simp add: lit_match_def startsWith_ci_append)
  then have m4: "match_items True [Lit u, One quote_cls, Many (NoneOf ''>'') 0, Lit ''>'']
              (v @ q' # rest @ ''>'' @ post) \<noteq> None"
    using len m3 by (intro lit_exists)
  have m5: "match_items True [One quote_cls, Lit u, One quote_cls, Many (NoneOf ''>'') 0, Lit ''>'']
              (q # v @ q' # rest @ ''>'' @ post) \<noteq> None"
    using q by (intro one_exists m4) (simp add: quote_cls_def)
  have "lit_match True ''src='' (''src='' @ q # v @ q' # rest @ ''>'' @ post)"
    by (simp add: lit_match_def)
  then have m6: "match_items True [Lit ''src='', One quote_cls, Lit u, One quote_cls,
              Many (NoneOf ''>'') 0, Lit ''>''] (''src='' @ q # v @ q' # rest @ ''>'' @ post) \<noteq> None"
    using m5 by (intro lit_exists) simp_all
  have m7: "match_items True [One space_cls, Lit ''src='', One quote_cls, Lit u, One quote_cls,
              Many (NoneOf ''>'') 0, Lit ''>'']
              (w # ''src='' @ q # v @ q' # rest @ ''>'' @ post) \<noteq> None"
    using w by (intro one_exists m6) (simp add: space_cls_def)
  let ?R = "w # ''src='' @ q # v @ q' # rest @ ''>'' @ post"
  have "takeWhile (in_cls (NoneOf ''>'')) (attrs @ ?R) =
          attrs @ takeWhile (in_cls (NoneOf ''>'')) ?R"
    by (rule takeWhile_append2) (use attrs in auto)
  then have "length attrs \<le> length (takeWhile (in_cls (NoneOf ''>'')) (attrs @ ?R))"
    by simp
  moreover have "match_items True [One space_cls, Lit ''src='', One quote_cls, Lit u, One quote_cls,
              Many (NoneOf ''>'') 0, Lit ''>''] (drop (length attrs) (attrs @ ?R)) \<noteq> None"
    using m7 by simp
  ultimately have m8: "match_items True [Many (NoneOf ''>'') 0, One space_cls, Lit ''src='',
              One quote_cls, Lit u, One quote_cls, Many (NoneOf ''>'') 0, Lit ''>'']
              (attrs @ ?R) \<noteq> None"
    by (intro many_exists [of "length attrs"]) simp_all
  have "lit_match True ''<img'' (''<img'' @ attrs @ ?R)"
    by (simp add: lit_match_def)
  then have "match_items True (htmlImgPattern u) (''<img'' @ attrs @ ?R) \<noteq> None"
    unfolding htmlImgPattern_def using m8 by (intro lit_exists) simp_all
  then have "regex_test True (htmlImgPattern u) (pre @ ''<img'' @ attrs @ ?R)"
    by (rule regex_test_append)
  then show ?thesis by (simp add: img_tag_def)
qed

lemma src_attribute_replaced:
  assumes w: "w \<in> set ws_chars" and q: "q \<in> set [CHR 0x22, CHR 0x27]"
      and q': "q' \<in> set [CHR 0x22, CHR 0x27]"
      and attrs: "CHR ''>'' \<notin> set attrs" and rest: "CHR ''>'' \<notin> set rest"
      and len: "length v = length u" and ci: "startsWith_ci v u" and ne: "v \<noteq> u"
      and before: "\<not> includes_ci (pre @ ''<img'' @ attrs @ [w] @ ''src='' @ [q] @ butlast v) u"
      and after: "\<not> includes_ci (tl v @ [q'] @ rest @ ''>'' @ post) u"
      and gone: "\<not> includes_ci (pre @ img_tag attrs w q n q' rest @ post) u"
  shows "replaceImageUrlInContent (pre @ img_tag attrs w q v q' rest @ post) u n =
           pre @ img_tag attrs w q n q' rest @ post"
proof -
  let ?a = "pre @ ''<img'' @ attrs @ [w] @ ''src='' @ [q]"
  let ?b = "[q'] @ rest @ ''>'' @ post"
  have body: "pre @ img_tag attrs w q v q' rest @ post = ?a @ v @ ?b"
    by (simp add: img_tag_def)
  have new: "pre @ img_tag attrs w q n q' rest @ post = ?a @ n @ ?b"
    by (simp add: img_tag_def)
  have before': "\<not> includes_ci (?a @ butlast v) u" using before by simp
  have absent: "\<not> includes_str (?a @ v @ ?b) u"
  proof
    assume "includes_str (?a @ v @ ?b) u"
    then obtain k where k: "startsWith (drop k (?a @ v @ ?b)) u"
      unfolding includes_str_drop by blast
    then have "startsWith_ci (drop k (?a @ v @ ?b)) u" by (rule startsWith_imp_ci)
    from single_occurrence [OF len before' after this] have kk: "k = length ?a" .
    have d: "\<And>x y::string. drop (length x) (x @ y) = y" by simp
    from k have "startsWith (v @ ?b) u" unfolding kk d [of ?a "v @ ?b"] .
    then obtain r where "v @ ?b = u @ r" unfolding startsWith_append by blast
    with len have "v = u" by simp
    with ne show False by simp
  qed
  have found: "regex_test True (htmlImgPattern u) (?a @ v @ ?b)"
    using img_tag_found [OF w q q' attrs rest len ci, of pre post] by (simp only: body)
  have html: "regex_replace True (htmlImgPattern u)
           (\<lambda>ps. concat (take 5 ps) @ n @ concat (drop 6 ps)) (?a @ v @ ?b) = ?a @ n @ ?b"
    using len ci before' after found by (rule html_replace_single)
  have "Lit ([] @ u @ []) \<in> set (simpleHtmlImgPattern u)"
    by (simp add: simpleHtmlImgPattern_def)
  with gone have simple: "\<And>f. regex_replace True (simpleHtmlImgPattern u) f (?a @ n @ ?b) = ?a @ n @ ?b"
    unfolding new by (intro regex_replace_absent_ci)
  show ?thesis
    unfolding body new html_only_replacement [OF absent] html by (rule simple)
qed

text \<open>
  C5, amended. \<open>replaceImageUrlInContent\<close> applies three strategies, in this order.
  When the address occurs in the body (and differs from the new one), the body is cut at
  every occurrence of the address, from left to right, and put together again around the
  new address: no piece between two cuts contains the address, and nothing else is done.
  When the address does not occur in the body, the markdown expression finds nothing to
  replace. The \<open>img\<close>/\<open>src\<close> expressions ignore letter case: when the body holds an
  \<open>img\<close> tag whose \<open>src\<close> is the address in other letter case, and the address occurs
  nowhere else in the body and not in the new address, the address in the tag is replaced
  by the new one and the rest of the body is kept. There is no fourth strategy: a body in
  which the address does not occur even with other letter case is returned as it is.
\<close>

theorem replaceImageUrl_strategies:
  "(includes_str c u \<and> u \<noteq> [] \<and> n \<noteq> u \<longrightarrow>
      c = join_str u (split_str c u) \<and>
      (\<forall>p \<in> set (split_str c u). \<not> includes_str p u) \<and>
      replaceImageUrlInContent c u n = join_str n (split_str c u)) \<and>
   (\<not> includes_str c u \<longrightarrow>
      regex_replace False (markdownImagePattern u)
        (\<lambda>ps. ''!['' @ ps ! 1 @ '']('' @ n @ '')'') c = c) \<and>
   (\<forall>pre attrs w q v q' rest post.
      c = pre @ img_tag attrs w q v q' rest @ post \<and>
      w \<in> set ws_chars \<and> q \<in> set [CHR 0x22, CHR 0x27] \<and> q' \<in> set [CHR 0x22, CHR 0x27] \<and>
      CHR ''>'' \<notin> set attrs \<and> CHR ''>'' \<notin> set rest \<and>
      length v = length u \<and> startsWith_ci v u \<and> v \<noteq> u \<and>
      \<not> includes_ci (pre @ ''<img'' @ attrs @ [w] @ ''src='' @ [q] @ butlast v) u \<and>
      \<not> includes_ci (tl v @ [q'] @ rest @ ''>'' @ post) u \<and>
      \<not> includes_ci (pre @ img_tag attrs w q n q' rest @ post) u \<longrightarrow>
      replaceImageUrlInContent c u n = pre @ img_tag attrs w q n q' rest @ post) \<and>
   (\<not> includes_ci c u \<longrightarrow> replaceImageUrlInContent c u n = c)"
proof (intro conjI impI allI)
  assume "includes_str c u \<and> u \<noteq> [] \<and> n \<noteq> u"
  then have h: "includes_str c u" "u \<noteq> []" "n \<noteq> u" by simp_all
  from exact_replacement [OF h] show "c = join_str u (split_str c u)" by simp
  from exact_replacement [OF h] show "\<forall>p \<in> set (split_str c u). \<not> includes_str p u" by simp
  from exact_replacement [OF h] show
    "replaceImageUrlInContent c u n = join_str n (split_str c u)" by simp
next
  assume absent: "\<not> includes_str c u"
  have "Lit ('']('' @ u @ '')'') \<in> set (markdownImagePattern u)"
    by (simp add: markdownImagePattern_def)
  from regex_replace_absent [OF absent this] show
    "regex_replace False (markdownImagePattern u)
        (\<lambda>ps. ''!['' @ ps ! 1 @ '']('' @ n @ '')'') c = c" .
next
  fix pre attrs w q v q' rest post
  assume h: "c = pre @ img_tag attrs w q v q' rest @ post \<and>
      w \<in> set ws_chars \<and> q \<in> set [CHR 0x22, CHR 0x27] \<and> q' \<in> set [CHR 0x22, CHR 0x27] \<and>
      CHR ''>'' \<notin> set attrs \<and> CHR ''>'' \<notin> set rest \<and>
      length v = length u \<and> startsWith_ci v u \<and> v \<noteq> u \<and>
      \<not> includes_ci (pre @ ''<img'' @ attrs @ [w] @ ''src='' @ [q] @ butlast v) u \<and>
      \<not> includes_ci (tl v @ [q'] @ rest @ ''>'' @ post) u \<and>
      \<not> includes_ci (pre @ img_tag attrs w q n q' rest @ post) u"
  then have c: "c = pre @ img_tag attrs w q v q' rest @ post" by (rule conjunct1)
  have "replaceImageUrlInContent (pre @ img_tag attrs w q v q' rest @ post) u n =
          pre @ img_tag attrs w q n q' rest @ post"
    by (rule src_attribute_replaced) (use h in blast)+
  then show "replaceImageUrlInContent c u n = pre @ img_tag attrs w q n q' rest @ post"
    unfolding c .
next
  assume "\<not> includes_ci c u"
  then show "replaceImageUrlInContent c u n = c" by (rule no_replacement)
qed

text \<open>
  A body that holds only the path of the absolute address: the path occurs in the body,
  and the body is returned unchanged.
\<close>

theorem path_only_occurrence_kept:
  "includes_str ''![x](/img/a.png)'' ''/img/a.png'' \<and>
   replaceImageUrlInContent ''![x](/img/a.png)'' ''http://a/img/a.png'' ''http://host/new.png'' =
     ''![x](/img/a.png)''"
  by (simp add: replaceImageUrlInContent_def split_str_def Let_def markdownImagePattern_def
      htmlImgPattern_def simpleHtmlImgPattern_def lit_match_def)

theorem replaceImageUrl_strategies_witness:
  "replaceImageUrlInContent ''![x](http://a/img.png)'' ''http://a/img.png'' ''http://host/new.png'' =
     ''![x](http://host/new.png)'' \<and>
   replaceImageUrlInContent ''<p><img width=5 src='HTTP://A/IMG.PNG'></p>'' ''http://a/img.png''
     ''http://host/new.png'' = ''<p><img width=5 src='http://host/new.png'></p>'' \<and>
   replaceImageUrlInContent ''![x](/img/b.png)'' ''http://a/img.png'' ''http://host/new.png'' =
     ''![x](/img/b.png)''"
proof -
  have 1: "includes_str ''![x](http://a/img.png)'' ''http://a/img.png'' \<and>
           ''http://a/img.png'' \<noteq> [] \<and> ''http://host/new.png'' \<noteq> ''http://a/img.png''"
    by simp
  have 2: "''<p><img width=5 src='HTTP://A/IMG.PNG'></p>'' =
             ''<p>'' @ img_tag '' width=5'' CHR '' '' CHR 0x27 ''HTTP://A/IMG.PNG'' CHR 0x27 [] @ ''</p>'' \<and>
      CHR '' '' \<in> set ws_chars \<and> CHR 0x27 \<in> set [CHR 0x22, CHR 0x27] \<and>
      CHR 0x27 \<in> set [CHR 0x22, CHR 0x27] \<and>
      CHR ''>'' \<notin> set '' width=5'' \<and> CHR ''>'' \<notin> set [] \<and>
      length ''HTTP://A/IMG.PNG'' = length ''http://a/img.png'' \<and>
      startsWith_ci ''HTTP://A/IMG.PNG'' ''http://a/img.png'' \<and>
      ''HTTP://A/IMG.PNG'' \<noteq> ''http://a/img.png'' \<and>
      \<not> includes_ci (''<p>'' @ ''<img'' @ '' width=5'' @ [CHR '' ''] @ ''src='' @ [CHR 0x27] @
                       butlast ''HTTP://A/IMG.PNG'') ''http://a/img.png'' \<and>
      \<not> includes_ci (tl ''HTTP://A/IMG.PNG'' @ [CHR 0x27] @ [] @ ''>'' @ ''</p>'')
          ''http://a/img.png'' \<and>
      \<not> includes_ci (''<p>'' @ img_tag '' width=5'' CHR '' '' CHR 0x27 ''http://host/new.png''
                       CHR 0x27 [] @ ''</p>'') ''http://a/img.png''"
    by (simp add: img_tag_def ws_chars_def)
  have 3: "\<not> includes_ci ''![x](/img/b.png)'' ''http://a/img.png''"
    by simp
  have tag: "''<p>'' @ img_tag '' width=5'' CHR '' '' CHR 0x27 ''http://host/new.png'' CHR 0x27 [] @
               ''</p>'' = ''<p><img width=5 src='http://host/new.png'></p>''"
    by (simp add: img_tag_def)
  show ?thesis
    using 1 3
      replaceImageUrl_strategies [of "''![x](http://a/img.png)''" "''http://a/img.png''"
        "''http://host/new.png''"]
      replaceImageUrl_strategies [of "''<p><img width=5 src='HTTP://A/IMG.PNG'></p>''"
        "''http://a/img.png''" "''http://host/new.png''",
        THEN conjunct2, THEN conjunct2, THEN conjunct1, rule_format, OF 2]
      replaceImageUrl_strategies [of "''![x](/img/b.png)''" "''http://a/img.png''"
        "''http://host/new.png''"]
    unfolding tag by (simp add: split_str_def)
qed

section \<open>Properties of the link processor\<close>

lemma linkPattern_match:
  assumes "CHR '']'' \<notin> set text" and "CHR '')'' \<notin> set url" and "url \<noteq> []"
  shows "match_items False linkPattern (''['' @ text @ '']('' @ url @ '')'' @ rest) =
           Some [''['', text, '']('', url, '')'']"
proof -
  have inner: "match_items False [Many (NoneOf '')'') 1, Lit '')''] (url @ CHR '')'' # rest) =
                 Some [url, '')'']"
    using many_until [OF assms(2), of 1 "[]" "[]" rest] assms(3)
    by (cases url) (simp_all add: lit_match_def)
  have "match_items False [Many (NoneOf '']'') 0, Lit '']('', Many (NoneOf '')'') 1, Lit '')'']
          (text @ CHR '']'' # (''('' @ url @ '')'' @ rest)) =
        Some [text, '']('', url, '')'']"
    using many_until [OF assms(1), of 0 "''(''" "[Many (NoneOf '')'') 1, Lit '')'']"
        "''('' @ url @ '')'' @ rest"] inner
    by (simp add: lit_match_def)
  then show ?thesis by (simp add: linkPattern_def lit_match_def)
qed

lemma linkPattern_no_match_empty: "match_items False linkPattern [] = None"
  by (simp add: linkPattern_def lit_match_def)

lemma regex_replace_link:
  assumes "CHR '']'' \<notin> set text" and "CHR '')'' \<notin> set url" and "url \<noteq> []"
  shows "regex_replace False linkPattern f (''['' @ text @ '']('' @ url @ '')'' @ rest) =
           f [''['', text, '']('', url, '')''] @ regex_replace False linkPattern f rest"
proof -
  let ?s = "''['' @ text @ '']('' @ url @ '')'' @ rest"
  let ?ps = "[''['', text, '']('', url, '')'']"
  have m: "match_items False linkPattern ?s = Some ?ps"
    by (rule linkPattern_match [OF assms])
  have ne: "concat ?ps \<noteq> []" by simp
  have "?s = concat ?ps @ rest" by simp
  then have "drop (length (concat ?ps)) ?s = rest" by (metis append_eq_conv_conj)
  with regex_replace_at_match [OF m ne, of f] show ?thesis by simp
qed

lemma plain_link_unfold:
  assumes "CHR '']'' \<notin> set text" and "CHR '')'' \<notin> set url" and "url \<noteq> []"
  shows "processLinks parse (''['' @ text @ '']('' @ url @ '')'') =
           (case convertLinkToOutlineTag parse text url of
              None \<Rightarrow> ''['' @ text @ '']('' @ url @ '')''
            | Some tag \<Rightarrow> if tag = [] then ''['' @ text @ '']('' @ url @ '')'' else tag)"
proof -
  let ?f = "\<lambda>ps. case convertLinkToOutlineTag parse (ps ! 1) (ps ! 3) of
                None \<Rightarrow> concat ps
              | Some tag \<Rightarrow> if tag = [] then concat ps else tag"
  have "regex_replace False linkPattern ?f (''['' @ text @ '']('' @ url @ '')'' @ []) =
          ?f [''['', text, '']('', url, '')''] @ regex_replace False linkPattern ?f []"
    by (rule regex_replace_link [OF assms])
  then show ?thesis
    by (simp add: processLinks_def linkPattern_no_match_empty split: option.splits)
qed

lemma rules_silent:
  "no_embed urlObj url \<Longrightarrow>
   first_of (\<lambda>r. r)
     [id_rule (isYouTube (toLowerCase (hostname urlObj))) (extractYouTubeVideoId url) ''youtube'',
      id_rule (isTwitter (toLowerCase (hostname urlObj))) (extractTwitterTweetId urlObj) ''tweet'',
      id_rule (isCodePen (toLowerCase (hostname urlObj))) (extractCodePenId urlObj) ''codepen'',
      id_rule (isGitHubGist (toLowerCase (hostname urlObj))) (extractGistId urlObj) ''gist'',
      url_rule (isFigma (toLowerCase (hostname urlObj))) url ''figma'',
      url_rule (isMiro (toLowerCase (hostname urlObj))) url ''miro'',
      url_rule (isGoogleMaps (toLowerCase (hostname urlObj)) urlObj) url ''googlemaps'',
      id_rule (isVimeo (toLowerCase (hostname urlObj))) (extractVimeoVideoId urlObj) ''vimeo''] = None"
  by (auto simp: no_embed_def Let_def id_rule_def url_rule_def)

lemma id_rule_shape:
  "id_rule m e name = Some tag \<Longrightarrow> \<exists>x. x \<noteq> [] \<and> tag = ''@['' @ name @ '']('' @ x @ '')''"
  by (auto simp: id_rule_def split: if_splits option.splits)

lemma url_rule_shape:
  "url_rule m url name = Some tag \<Longrightarrow> tag = ''@['' @ name @ '']('' @ url @ '')''"
  by (auto simp: url_rule_def split: if_splits)

lemma convert_shape:
  assumes "convertLinkToOutlineTag parse text url = Some tag" and "url \<noteq> []"
  shows "tag = ''['' @ text @ '']('' @ url @ '')'' \<or>
         (\<exists>name x. name \<in> set [''youtube'', ''tweet'', ''codepen'', ''gist'', ''figma'', ''miro'',
                                ''googlemaps'', ''vimeo''] \<and>
                   x \<noteq> [] \<and> tag = ''@['' @ name @ '']('' @ x @ '')'')"
proof -
  from assms(1) obtain urlObj where p: "parse url = Some urlObj"
    by (auto simp: convertLinkToOutlineTag_def split: option.splits)
  let ?d = "toLowerCase (hostname urlObj)"
  let ?rules = "[id_rule (isYouTube ?d) (extractYouTubeVideoId url) ''youtube'',
      id_rule (isTwitter ?d) (extractTwitterTweetId urlObj) ''tweet'',
      id_rule (isCodePen ?d) (extractCodePenId urlObj) ''codepen'',
      id_rule (isGitHubGist ?d) (extractGistId urlObj) ''gist'',
      url_rule (isFigma ?d) url ''figma'',
      url_rule (isMiro ?d) url ''miro'',
      url_rule (isGoogleMaps ?d urlObj) url ''googlemaps'',
      id_rule (isVimeo ?d) (extractVimeoVideoId urlObj) ''vimeo'']"
  show ?thesis
  proof (cases "first_of (\<lambda>r. r) ?rules")
    case None
    with assms(1) p show ?thesis
      by (simp add: convertLinkToOutlineTag_def Let_def)
  next
    case (Some t)
    with assms(1) p have t: "t = tag"
      by (simp add: convertLinkToOutlineTag_def Let_def)
    from first_of_Some [OF Some] have "Some tag \<in> set ?rules" using t by auto
    then consider
        "id_rule (isYouTube ?d) (extractYouTubeVideoId url) ''youtube'' = Some tag"
      | "id_rule (isTwitter ?d) (extractTwitterTweetId urlObj) ''tweet'' = Some tag"
      | "id_rule (isCodePen ?d) (extractCodePenId urlObj) ''codepen'' = Some tag"
      | "id_rule (isGitHubGist ?d) (extractGistId urlObj) ''gist'' = Some tag"
      | "url_rule (isFigma ?d) url ''figma'' = Some tag"
      | "url_rule (isMiro ?d) url ''miro'' = Some tag"
      | "url_rule (isGoogleMaps ?d urlObj) url ''googlemaps'' = Some tag"
      | "id_rule (isVimeo ?d) (extractVimeoVideoId urlObj) ''vimeo'' = Some tag"
      by (simp only: set_simps insert_iff empty_iff) metis
    then have "\<exists>name x. name \<in> set [''youtube'', ''tweet'', ''codepen'', ''gist'', ''figma'',
                                ''miro'', ''googlemaps'', ''vimeo''] \<and>
                   x \<noteq> [] \<and> tag = ''@['' @ name @ '']('' @ x @ '')''"
    proof cases
      case 1
      from id_rule_shape [OF this] obtain x where "x \<noteq> []" "tag = ''@['' @ ''youtube'' @ '']('' @ x @ '')''"
        by blast
      then show ?thesis by (intro exI [of _ "''youtube''"] exI [of _ x]) simp
    next
      case 2
      from id_rule_shape [OF this] obtain x where "x \<noteq> []" "tag = ''@['' @ ''tweet'' @ '']('' @ x @ '')''"
        by blast
      then show ?thesis by (intro exI [of _ "''tweet''"] exI [of _ x]) simp
    next
      case 3
      from id_rule_shape [OF this] obtain x where "x \<noteq> []" "tag = ''@['' @ ''codepen'' @ '']('' @ x @ '')''"
        by blast
      then show ?thesis by (intro exI [of _ "''codepen''"] exI [of _ x]) simp
    next
      case 4
      from id_rule_shape [OF this] obtain x where "x \<noteq> []" "tag = ''@['' @ ''gist'' @ '']('' @ x @ '')''"
        by blast
      then show ?thesis by (intro exI [of _ "''gist''"] exI [of _ x]) simp
    next
      case 5
      from url_rule_shape [OF this] assms(2) show ?thesis
        by (intro exI [of _ "''figma''"] exI [of _ url]) simp
    next
      case 6
      from url_rule_shape [OF this] assms(2) show ?thesis
        by (intro exI [of _ "''miro''"] exI [of _ url]) simp
    next
      case 7
      from url_rule_shape [OF this] assms(2) show ?thesis
        by (intro exI [of _ "''googlemaps''"] exI [of _ url]) simp
    next
      case 8
      from id_rule_shape [OF this] obtain x where "x \<noteq> []" "tag = ''@['' @ ''vimeo'' @ '']('' @ x @ '')''"
        by blast
      then show ?thesis by (intro exI [of _ "''vimeo''"] exI [of _ x]) simp
    qed
    then show ?thesis by blast
  qed
qed

text \<open>
  C6, amended. For a markdown link \<open>[text](url)\<close>: when the address does not parse, or
  it parses and no block of \<open>convertLinkToOutlineTag\<close> returns (every provider with an
  id that matches the domain fails to extract one, and none of Figma, Miro and Google
  Maps matches), \<open>processLinks\<close> leaves the link as it is. In every case the output is
  the link itself or an embed tag \<open>@[provider](x)\<close> of one of the eight providers with a
  non-empty \<open>x\<close>.
\<close>

theorem processLinks_plain_link:
  assumes "CHR '']'' \<notin> set text" and "CHR '')'' \<notin> set url" and "url \<noteq> []"
  shows "(parse url = None \<longrightarrow>
            processLinks parse (''['' @ text @ '']('' @ url @ '')'') =
              ''['' @ text @ '']('' @ url @ '')'') \<and>
         (\<forall>urlObj. parse url = Some urlObj \<and> no_embed urlObj url \<longrightarrow>
            processLinks parse (''['' @ text @ '']('' @ url @ '')'') =
              ''['' @ text @ '']('' @ url @ '')'') \<and>
         (processLinks parse (''['' @ text @ '']('' @ url @ '')'') =
            ''['' @ text @ '']('' @ url @ '')'' \<or>
          (\<exists>name x. name \<in> set [''youtube'', ''tweet'', ''codepen'', ''gist'', ''figma'', ''miro'',
                                 ''googlemaps'', ''vimeo''] \<and>
                    x \<noteq> [] \<and>
                    processLinks parse (''['' @ text @ '']('' @ url @ '')'') =
                      ''@['' @ name @ '']('' @ x @ '')''))"
proof -
  let ?link = "''['' @ text @ '']('' @ url @ '')''"
  have eq: "processLinks parse ?link =
           (case convertLinkToOutlineTag parse text url of
              None \<Rightarrow> ?link
            | Some tag \<Rightarrow> if tag = [] then ?link else tag)"
    by (rule plain_link_unfold [OF assms])
  have a: "parse url = None \<longrightarrow> processLinks parse ?link = ?link"
    unfolding eq by (simp add: convertLinkToOutlineTag_def)
  have b: "\<forall>urlObj. parse url = Some urlObj \<and> no_embed urlObj url \<longrightarrow>
            processLinks parse ?link = ?link"
  proof (intro allI impI)
    fix urlObj
    assume h: "parse url = Some urlObj \<and> no_embed urlObj url"
    then have "no_embed urlObj url" by simp
    from rules_silent [OF this] h show "processLinks parse ?link = ?link"
      unfolding eq by (simp add: convertLinkToOutlineTag_def Let_def)
  qed
  have c: "processLinks parse ?link = ?link \<or>
          (\<exists>name x. name \<in> set [''youtube'', ''tweet'', ''codepen'', ''gist'', ''figma'', ''miro'',
                                 ''googlemaps'', ''vimeo''] \<and>
                    x \<noteq> [] \<and> processLinks parse ?link = ''@['' @ name @ '']('' @ x @ '')'')"
  proof (cases "convertLinkToOutlineTag parse text url")
    case None
    then show ?thesis unfolding eq by simp
  next
    case (Some tag)
    show ?thesis
    proof (cases "tag = []")
      case True
      with Some show ?thesis unfolding eq by simp
    next
      case False
      with Some have "processLinks parse ?link = tag" unfolding eq by simp
      with convert_shape [OF Some assms(3)] show ?thesis by simp
    qed
  qed
  from a b c show ?thesis by (intro conjI)
qed

lemmas link_defs =
  processLinks_def linkPattern_def convertLinkToOutlineTag_def id_rule_def url_rule_def
  isYouTube_def isTwitter_def isCodePen_def isGitHubGist_def isFigma_def isMiro_def
  isGoogleMaps_def isVimeo_def extractYouTubeVideoId_def extractTwitterTweetId_def
  extractCodePenId_def extractGistId_def extractVimeoVideoId_def digit_cls_def
  toLowerCase_def lit_match_def example_parse_def Let_def

lemma embed_examples:
  "processLinks example_parse ''[v](https://youtu.be/abc123)'' = ''@[youtube](abc123)''"
  "processLinks example_parse ''[v](https://vimeo.com/55500)'' = ''@[vimeo](55500)''"
  "processLinks example_parse ''[text](https://example.com/not-a-provider)'' =
     ''[text](https://example.com/not-a-provider)''"
  by (simp_all add: link_defs)

text \<open>
  A host name that contains \<open>youtube.com\<close> and \<open>figma.com\<close>: the YouTube block matches
  the domain and extracts no id, control falls through, and the Figma block turns the
  link into an embed.
\<close>

theorem later_provider_embeds:
  "isYouTube (toLowerCase ''youtube.com.figma.com'') \<and>
   extractYouTubeVideoId ''https://youtube.com.figma.com/'' = None \<and>
   processLinks example_parse ''[t](https://youtube.com.figma.com/)'' =
     ''@[figma](https://youtube.com.figma.com/)''"
  by (simp add: link_defs)

theorem processLinks_plain_link_witness:
  "processLinks example_parse ''[docs](https://vimeo.com/channels/staff)'' =
     ''[docs](https://vimeo.com/channels/staff)'' \<and>
   processLinks example_parse ''[x](not a url)'' = ''[x](not a url)''"
proof -
  have quiet: "no_embed \<lparr>hostname = ''vimeo.com'', pathname = ''/channels/staff''\<rparr>
                 ''https://vimeo.com/channels/staff''"
    by (simp add: no_embed_def link_defs)
  have p1: "example_parse ''https://vimeo.com/channels/staff'' =
              Some \<lparr>hostname = ''vimeo.com'', pathname = ''/channels/staff''\<rparr>"
    by (simp add: example_parse_def)
  have p2: "example_parse ''not a url'' = None"
    by (simp add: example_parse_def)
  have 1: "CHR '']'' \<notin> set ''docs''" "CHR '')'' \<notin> set ''https://vimeo.com/channels/staff''"
    "''https://vimeo.com/channels/staff'' \<noteq> []"
    by simp_all
  have 2: "CHR '']'' \<notin> set ''x''" "CHR '')'' \<notin> set ''not a url''" "''not a url'' \<noteq> []"
    by simp_all
  show ?thesis
    using processLinks_plain_link [OF 1, of example_parse]
      processLinks_plain_link [OF 2, of example_parse] quiet p1 p2
    by simp
qed

section \<open>Properties of convertTableToMarkdown\<close>

lemma split_line:
  "LF \<notin> set l \<Longrightarrow> split_from [LF] acc (l @ LF # t) = (acc @ l) # split_from [LF] [] t"
  by (induction l arbitrary: acc) auto

lemma split_lines:
  "\<forall>l \<in> set ls. LF \<notin> set l \<Longrightarrow>
   split_from [LF] [] (concat (map (\<lambda>l. l @ [LF]) ls) @ t) = ls @ split_from [LF] [] t"
proof (induction ls)
  case Nil
  then show ?case by simp
next
  case (Cons l ls)
  then have "LF \<notin> set l" by simp
  from split_line [OF this, of "[]" "concat (map (\<lambda>l. l @ [LF]) ls) @ t"] Cons show ?case
    by simp
qed

lemma pipes_append [simp]: "pipes (a @ b) = pipes a + pipes b"
  by (simp add: pipes_def)

lemma pipes_join:
  "cells \<noteq> [] \<Longrightarrow> \<forall>c \<in> set cells. pipes c = 0 \<Longrightarrow>
   pipes (join_str '' | '' cells) = length cells - 1"
proof (induction "'' | ''" cells rule: join_str.induct)
  case 1
  then show ?case by simp
next
  case (2 x)
  then show ?case by simp
next
  case (3 x y ys)
  then show ?case by (simp add: pipes_def)
qed

lemma LF_join:
  "\<forall>c \<in> set cells. LF \<notin> set c \<Longrightarrow> LF \<notin> set (join_str '' | '' cells)"
  by (induction "'' | ''" cells rule: join_str.induct) auto

lemma pipe_line_line_of: "pipe_line cells = line_of cells @ [LF]"
  by (simp add: pipe_line_def line_of_def)

lemma line_of_props:
  assumes "cells \<noteq> []" and "\<forall>c \<in> set cells. pipes c = 0 \<and> LF \<notin> set c"
  shows "pipes (line_of cells) = length cells + 1" and "LF \<notin> set (line_of cells)"
    and "line_of cells \<noteq> []"
proof -
  from assms have "pipes (join_str '' | '' cells) = length cells - 1"
    by (intro pipes_join) auto
  moreover have "0 < length cells" using assms(1) by simp
  ultimately show "pipes (line_of cells) = length cells + 1"
    by (simp add: line_of_def pipes_def)
  from assms have "LF \<notin> set (join_str '' | '' cells)" by (intro LF_join) auto
  then show "LF \<notin> set (line_of cells)" by (simp add: line_of_def)
  show "line_of cells \<noteq> []" by (simp add: line_of_def)
qed

lemma table_output:
  "convertTableToMarkdown (header # rows) =
     [LF, LF] @
     concat (map (\<lambda>l. l @ [LF])
       (line_of (map cell_text header) # line_of (map (\<lambda>h. ''---'') header) #
        map (\<lambda>r. line_of (map cell_text r)) rows)) @ [LF]"
  by (simp add: convertTableToMarkdown_def Let_def pipe_line_line_of comp_def)

lemma table_lines_of_lines:
  assumes "\<forall>l \<in> set ls. LF \<notin> set l \<and> l \<noteq> []"
  shows "table_lines ([LF, LF] @ concat (map (\<lambda>l. l @ [LF]) ls) @ [LF]) = ls"
proof -
  have "split_from [LF] [] (concat (map (\<lambda>l. l @ [LF]) ls) @ [LF]) = ls @ split_from [LF] [] [LF]"
    using assms by (intro split_lines) auto
  then have "split_str ([LF, LF] @ concat (map (\<lambda>l. l @ [LF]) ls) @ [LF]) [LF] =
             [] # [] # ls @ [[], []]"
    by (simp add: split_str_def)
  moreover have "filter (\<lambda>l. l \<noteq> []) ls = ls" using assms by (simp add: filter_id_conv)
  ultimately show ?thesis by (simp add: table_lines_def)
qed

lemma cell_text_clean:
  assumes "\<forall>t. c = Some t \<longrightarrow> CHR ''|'' \<notin> set t \<and> LF \<notin> set (trim t)"
  shows "pipes (cell_text c) = 0 \<and> LF \<notin> set (cell_text c)"
proof (cases c)
  case None
  then show ?thesis by (simp add: cell_text_def pipes_def)
next
  case (Some t)
  with assms have "CHR ''|'' \<notin> set t" and lf: "LF \<notin> set (trim t)" by simp_all
  with set_trim [of t] have "CHR ''|'' \<notin> set (trim t)" by blast
  then have "filter (\<lambda>c. c = CHR ''|'') (trim t) = []" by (auto simp: filter_empty_conv)
  with lf Some show ?thesis by (simp add: cell_text_def pipes_def)
qed

text \<open>
  C7, amended. A table whose first row and \<open>N\<close> further rows all have \<open>M\<close> cells, with
  \<open>M\<close> at least 1, no pipe character in a cell's text and no line feed in a cell's
  trimmed text, converts to exactly \<open>N + 2\<close> lines that are not empty: the header line
  from the first row, the line of dashes, and one line for each further row. Each of them
  has exactly \<open>M + 1\<close> pipe characters.
\<close>

theorem table_lines_and_pipes:
  assumes "\<forall>r \<in> set (header # rows). length r = M" and "1 \<le> M"
      and "\<forall>r \<in> set (header # rows). \<forall>c \<in> set r.
             \<forall>t. c = Some t \<longrightarrow> CHR ''|'' \<notin> set t \<and> LF \<notin> set (trim t)"
  shows "table_lines (convertTableToMarkdown (header # rows)) =
           line_of (map cell_text header) # line_of (replicate M ''---'') #
           map (\<lambda>r. line_of (map cell_text r)) rows \<and>
         length (table_lines (convertTableToMarkdown (header # rows))) = length rows + 2 \<and>
         (\<forall>l \<in> set (table_lines (convertTableToMarkdown (header # rows))). pipes l = M + 1)"
proof -
  let ?ls = "line_of (map cell_text header) # line_of (map (\<lambda>h. ''---'') header) #
        map (\<lambda>r. line_of (map cell_text r)) rows"
  have row: "pipes (line_of (map cell_text r)) = M + 1 \<and> LF \<notin> set (line_of (map cell_text r)) \<and>
             line_of (map cell_text r) \<noteq> []" if r: "r \<in> set (header # rows)" for r
  proof -
    from r assms(1,2) have ne: "map cell_text r \<noteq> []" and len: "length (map cell_text r) = M"
      by auto
    have "\<forall>c \<in> set (map cell_text r). pipes c = 0 \<and> LF \<notin> set c"
      using cell_text_clean assms(3) r by auto
    from line_of_props [OF ne this] len show ?thesis by simp
  qed
  have dashes: "map (\<lambda>h. ''---'') header = replicate M ''---''"
    using assms(1) by (simp add: map_replicate_const)
  have sep: "pipes (line_of (replicate M ''---'')) = M + 1 \<and>
             LF \<notin> set (line_of (replicate M ''---'')) \<and> line_of (replicate M ''---'') \<noteq> []"
  proof -
    have ne: "replicate M ''---'' \<noteq> []" using assms(2) by auto
    have "\<forall>c \<in> set (replicate M ''---''). pipes c = 0 \<and> LF \<notin> set c"
      by (simp add: pipes_def)
    from line_of_props [OF ne this] show ?thesis by simp
  qed
  have all: "\<forall>l \<in> set ?ls. pipes l = M + 1 \<and> LF \<notin> set l \<and> l \<noteq> []"
    using row sep dashes by auto
  then have "table_lines ([LF, LF] @ concat (map (\<lambda>l. l @ [LF]) ?ls) @ [LF]) = ?ls"
    by (intro table_lines_of_lines) blast
  then have lines: "table_lines (convertTableToMarkdown (header # rows)) = ?ls"
    by (simp only: table_output)
  show ?thesis
    unfolding lines using all dashes by simp
qed

text \<open>
  A row without cells gives the line \<open>|  |\<close>, with two pipe characters; a cell whose
  text has a line feed inside breaks its line in two.
\<close>

theorem table_lines_counterexample:
  "table_lines (convertTableToMarkdown [[]]) = [''|  |'', ''|  |''] \<and>
   pipes ''|  |'' = 2 \<and>
   length (table_lines (convertTableToMarkdown [[Some ''h''], [Some [CHR ''a'', LF, CHR ''b'']]])) = 4"
  by (simp add: convertTableToMarkdown_def table_lines_def pipes_def pipe_line_def cell_text_def
      trim_def ws_chars_def split_str_def Let_def)

theorem table_lines_and_pipes_witness:
  "table_lines (convertTableToMarkdown
     [[Some ''Name'', Some ''Age''], [Some '' Ann '', Some ''31''], [Some ''Bob'', None]]) =
     [''| Name | Age |'', ''| --- | --- |'', ''| Ann | 31 |'', ''| Bob |  |'']"
proof -
  let ?header = "[Some ''Name'', Some ''Age'']"
  let ?rows = "[[Some '' Ann '', Some ''31''], [Some ''Bob'', None]]"
  have 1: "\<forall>r \<in> set (?header # ?rows). length r = 2" by simp
  have 2: "1 \<le> (2::nat)" by simp
  have 3: "\<forall>r \<in> set (?header # ?rows). \<forall>c \<in> set r.
             \<forall>t. c = Some t \<longrightarrow> CHR ''|'' \<notin> set t \<and> LF \<notin> set (trim t)"
    by (simp add: trim_def ws_chars_def)
  from table_lines_and_pipes [OF 1 2 3] show ?thesis
    by (simp add: line_of_def cell_text_def trim_def ws_chars_def numeral_2_eq_2)
qed

section \<open>Properties of convertRelativeImageUrls\<close>

lemma url_ok_iff:
  "url_ok t \<longleftrightarrow> (\<exists>u r. t = u @ CHR '')'' # r \<and> CHR '')'' \<notin> set u \<and> u \<noteq> [])"
proof
  assume "url_ok t"
  then obtain x xs where t: "t = x # xs" and x: "x \<noteq> CHR '')''" and "CHR '')'' \<in> set xs"
    by (auto simp: url_ok_def split: list.splits)
  then obtain u' r where "xs = u' @ CHR '')'' # r" "CHR '')'' \<notin> set u'"
    by (meson split_list_first)
  with t x have "t = (x # u') @ CHR '')'' # r \<and> CHR '')'' \<notin> set (x # u') \<and> x # u' \<noteq> []"
    by simp
  then show "\<exists>u r. t = u @ CHR '')'' # r \<and> CHR '')'' \<notin> set u \<and> u \<noteq> []" by blast
next
  assume "\<exists>u r. t = u @ CHR '')'' # r \<and> CHR '')'' \<notin> set u \<and> u \<noteq> []"
  then obtain u r where "t = u @ CHR '')'' # r" "CHR '')'' \<notin> set u" "u \<noteq> []" by blast
  then show "url_ok t" by (cases u) (auto simp: url_ok_def)
qed

lemma tail_ok_iff:
  "tail_ok t \<longleftrightarrow>
     (\<exists>a u r. t = a @ '']('' @ u @ '')'' @ r \<and> CHR '']'' \<notin> set a \<and> CHR '')'' \<notin> set u \<and> u \<noteq> [])"
proof (induction t)
  case Nil
  show ?case by simp
next
  case (Cons c cs)
  show ?case
  proof (cases "c = CHR '']''")
    case True
    show ?thesis
    proof
      assume "tail_ok (c # cs)"
      with True obtain t' where cs: "cs = CHR ''('' # t'" and "url_ok t'"
        by (auto split: list.splits)
      then obtain u r where "t' = u @ CHR '')'' # r" "CHR '')'' \<notin> set u" "u \<noteq> []"
        unfolding url_ok_iff by blast
      with True cs have "c # cs = [] @ '']('' @ u @ '')'' @ r \<and> CHR '']'' \<notin> set [] \<and>
          CHR '')'' \<notin> set u \<and> u \<noteq> []" by simp
      then show "\<exists>a u r. c # cs = a @ '']('' @ u @ '')'' @ r \<and> CHR '']'' \<notin> set a \<and>
          CHR '')'' \<notin> set u \<and> u \<noteq> []" by blast
    next
      assume "\<exists>a u r. c # cs = a @ '']('' @ u @ '')'' @ r \<and> CHR '']'' \<notin> set a \<and>
          CHR '')'' \<notin> set u \<and> u \<noteq> []"
      then obtain a u r where d: "c # cs = a @ '']('' @ u @ '')'' @ r" "CHR '']'' \<notin> set a"
        "CHR '')'' \<notin> set u" "u \<noteq> []" by blast
      with True have "a = []" by (cases a) auto
      with d have "cs = CHR ''('' # u @ CHR '')'' # r" by simp
      moreover have "url_ok (u @ CHR '')'' # r)" unfolding url_ok_iff using d by blast
      ultimately show "tail_ok (c # cs)" using True by simp
    qed
  next
    case False
    show ?thesis
    proof
      assume "tail_ok (c # cs)"
      with False have "tail_ok cs" by simp
      with Cons obtain a u r where "cs = a @ '']('' @ u @ '')'' @ r" "CHR '']'' \<notin> set a"
        "CHR '')'' \<notin> set u" "u \<noteq> []" by blast
      with False have "c # cs = (c # a) @ '']('' @ u @ '')'' @ r \<and> CHR '']'' \<notin> set (c # a) \<and>
        CHR '')'' \<notin> set u \<and> u \<noteq> []" by simp
      then show "\<exists>a u r. c # cs = a @ '']('' @ u @ '')'' @ r \<and> CHR '']'' \<notin> set a \<and>
          CHR '')'' \<notin> set u \<and> u \<noteq> []" by blast
    next
      assume "\<exists>a u r. c # cs = a @ '']('' @ u @ '')'' @ r \<and> CHR '']'' \<notin> set a \<and>
          CHR '')'' \<notin> set u \<and> u \<noteq> []"
      then obtain a u r where d: "c # cs = a @ '']('' @ u @ '')'' @ r" "CHR '']'' \<notin> set a"
        "CHR '')'' \<notin> set u" "u \<noteq> []" by blast
      with False obtain a' where "a = c # a'" by (cases a) auto
      with d have "cs = a' @ '']('' @ u @ '')'' @ r \<and> CHR '']'' \<notin> set a' \<and>
        CHR '')'' \<notin> set u \<and> u \<noteq> []" by simp
      with Cons have "tail_ok cs" by blast
      with False show "tail_ok (c # cs)" by simp
    qed
  qed
qed

lemma imagePattern_match:
  assumes "CHR '']'' \<notin> set label" and "CHR '')'' \<notin> set url" and "url \<noteq> []"
  shows "match_items False imagePattern (''!['' @ label @ '']('' @ url @ '')'' @ rest) =
           Some [''!['', label, '']('', url, '')'']"
proof -
  have inner: "match_items False [Many (NoneOf '')'') 1, Lit '')''] (url @ CHR '')'' # rest) =
                 Some [url, '')'']"
    using many_until [OF assms(2), of 1 "[]" "[]" rest] assms(3)
    by (cases url) (simp_all add: lit_match_def)
  have "match_items False [Many (NoneOf '']'') 0, Lit '']('', Many (NoneOf '')'') 1, Lit '')'']
          (label @ CHR '']'' # (''('' @ url @ '')'' @ rest)) =
        Some [label, '']('', url, '')'']"
    using many_until [OF assms(1), of 0 "''(''" "[Many (NoneOf '')'') 1, Lit '')'']"
        "''('' @ url @ '')'' @ rest"] inner
    by (simp add: lit_match_def)
  then show ?thesis by (simp add: imagePattern_def lit_match_def)
qed

lemma imagePattern_unmatched:
  assumes "\<not> tail_ok t"
  shows "match_items False imagePattern (''!['' @ t) = None"
proof (cases "CHR '']'' \<in> set t")
  case False
  from many_fails [OF this, of 0 "''(''" "[Many (NoneOf '')'') 1, Lit '')'']"]
  show ?thesis by (simp add: imagePattern_def lit_match_def)
next
  case True
  then obtain a t1 where t: "t = a @ CHR '']'' # t1" and a: "CHR '']'' \<notin> set a"
    by (meson split_list_first)
  have first: "match_items False imagePattern (''!['' @ t) =
        map_option ((#) ''!['') (map_option ((#) a)
          (match_items False [Lit '']('', Many (NoneOf '')'') 1, Lit '')''] (CHR '']'' # t1)))"
    using many_until [OF a, of 0 "''(''" "[Many (NoneOf '')'') 1, Lit '')'']" t1] t
    by (simp add: imagePattern_def lit_match_def)
  show ?thesis
  proof (cases t1)
    case Nil
    with first show ?thesis by (simp add: lit_match_def)
  next
    case (Cons x t2)
    show ?thesis
    proof (cases "x = CHR ''(''")
      case False
      with first Cons show ?thesis by (simp add: lit_match_def)
    next
      case paren: True
      have second: "match_items False [Lit '']('', Many (NoneOf '')'') 1, Lit '')''] (CHR '']'' # t1) =
          map_option ((#) '']('') (match_items False [Many (NoneOf '')'') 1, Lit '')''] t2)"
        using Cons paren by (simp add: lit_match_def)
      have "match_items False [Many (NoneOf '')'') 1, Lit '')''] t2 = None"
      proof (cases "CHR '')'' \<in> set t2")
        case False
        from many_fails [OF this, of 1 "[]" "[]"] show ?thesis by simp
      next
        case True
        then obtain u r where t2: "t2 = u @ CHR '')'' # r" and u: "CHR '')'' \<notin> set u"
          by (meson split_list_first)
        have "u = []"
        proof (rule ccontr)
          assume "u \<noteq> []"
          with t t2 u a Cons paren have "tail_ok t"
            unfolding tail_ok_iff by (intro exI [of _ a] exI [of _ u] exI [of _ r]) simp
          with assms show False by simp
        qed
        with many_until [OF u, of 1 "[]" "[]" r] t2 show ?thesis by simp
      qed
      with first second show ?thesis by simp
    qed
  qed
qed

lemma imagePattern_iff:
  "match_items False imagePattern s \<noteq> None \<longleftrightarrow> (\<exists>t. s = ''!['' @ t \<and> tail_ok t)"
proof
  assume m: "match_items False imagePattern s \<noteq> None"
  from m have "startsWith s ''![''"
    by (simp add: imagePattern_def lit_match_def split: if_splits)
  then obtain t where s: "s = ''!['' @ t" by (auto simp: startsWith_append)
  have "tail_ok t"
  proof (rule ccontr)
    assume "\<not> tail_ok t"
    from imagePattern_unmatched [OF this] m s show False by simp
  qed
  with s show "\<exists>t. s = ''!['' @ t \<and> tail_ok t" by blast
next
  assume "\<exists>t. s = ''!['' @ t \<and> tail_ok t"
  then obtain t where s: "s = ''!['' @ t" and "tail_ok t" by blast
  then obtain a u r where "t = a @ '']('' @ u @ '')'' @ r" "CHR '']'' \<notin> set a"
    "CHR '')'' \<notin> set u" "u \<noteq> []" unfolding tail_ok_iff by blast
  with imagePattern_match [of a u r] s show "match_items False imagePattern s \<noteq> None"
    by simp
qed

lemma conv_Nil: "convertRelativeImageUrls resolve [] = []"
  by (simp add: convertRelativeImageUrls_def imagePattern_def lit_match_def)

lemma conv_no_match:
  "match_items False imagePattern (c # cs) = None \<Longrightarrow>
   convertRelativeImageUrls resolve (c # cs) = c # convertRelativeImageUrls resolve cs"
  by (simp add: convertRelativeImageUrls_def)

lemma conv_other_start:
  "c \<noteq> CHR ''!'' \<Longrightarrow>
   convertRelativeImageUrls resolve (c # cs) = c # convertRelativeImageUrls resolve cs"
  by (rule conv_no_match) (simp add: imagePattern_def lit_match_def)

lemma conv_match:
  assumes "CHR '']'' \<notin> set a" and "CHR '')'' \<notin> set u" and "u \<noteq> []"
  shows "convertRelativeImageUrls resolve (''!['' @ a @ '']('' @ u @ '')'' @ r) =
           absolute_image resolve [''!['', a, '']('', u, '')''] @
           convertRelativeImageUrls resolve r"
proof -
  let ?s = "''!['' @ a @ '']('' @ u @ '')'' @ r"
  let ?ps = "[''!['', a, '']('', u, '')'']"
  have m: "match_items False imagePattern ?s = Some ?ps"
    by (rule imagePattern_match [OF assms])
  have ne: "concat ?ps \<noteq> []" by simp
  have "?s = concat ?ps @ r" by simp
  then have "drop (length (concat ?ps)) ?s = r" by (metis append_eq_conv_conj)
  with regex_replace_at_match [OF m ne, of "absolute_image resolve"] show ?thesis
    by (simp add: convertRelativeImageUrls_def)
qed

lemma conv_keeps_head: "\<exists>r. convertRelativeImageUrls resolve (c # cs) = c # r"
proof (cases "match_items False imagePattern (c # cs)")
  case None
  then show ?thesis by (simp add: conv_no_match)
next
  case (Some ps)
  then obtain t where s: "c # cs = ''!['' @ t" and "tail_ok t"
    using imagePattern_iff [of "c # cs"] by auto
  then obtain a u r where d: "t = a @ '']('' @ u @ '')'' @ r" "CHR '']'' \<notin> set a"
    "CHR '')'' \<notin> set u" "u \<noteq> []" unfolding tail_ok_iff by blast
  from s have c: "c = CHR ''!''" by simp
  have "convertRelativeImageUrls resolve (c # cs) =
          absolute_image resolve [''!['', a, '']('', u, '')''] @ convertRelativeImageUrls resolve r"
    using conv_match [OF d(2,3,4), of resolve r] s d(1) by simp
  then show ?thesis using c
    by (auto simp: absolute_image_def Let_def split: option.splits)
qed

lemma conv_paren:
  "CHR '')'' \<in> set (convertRelativeImageUrls resolve s) \<Longrightarrow> CHR '')'' \<in> set s"
proof (induction s)
  case Nil
  then show ?case by (simp add: conv_Nil)
next
  case (Cons c cs)
  show ?case
  proof (cases "match_items False imagePattern (c # cs)")
    case None
    with Cons show ?thesis by (auto simp: conv_no_match)
  next
    case (Some ps)
    then obtain t where s: "c # cs = ''!['' @ t" and "tail_ok t"
      using imagePattern_iff [of "c # cs"] by auto
    then obtain a u r where "t = a @ '']('' @ u @ '')'' @ r" unfolding tail_ok_iff by blast
    with s have "c # cs = ''!['' @ a @ '']('' @ u @ '')'' @ r" by simp
    then have "CHR '')'' \<in> set (c # cs)" by (simp only: set_append) simp
    then show ?thesis .
  qed
qed

lemma url_ok_conv: "url_ok (convertRelativeImageUrls resolve t) \<Longrightarrow> url_ok t"
proof (cases t)
  case Nil
  assume "url_ok (convertRelativeImageUrls resolve t)"
  with Nil show ?thesis by (simp add: conv_Nil url_ok_def)
next
  case (Cons x xs)
  assume ok: "url_ok (convertRelativeImageUrls resolve t)"
  from conv_keeps_head [of resolve x xs] obtain r where
    r: "convertRelativeImageUrls resolve (x # xs) = x # r" by blast
  with ok Cons have x: "x \<noteq> CHR '')''" and "CHR '')'' \<in> set r" by (simp_all add: url_ok_def)
  then have "CHR '')'' \<in> set (convertRelativeImageUrls resolve (x # xs))" using r by simp
  then have "CHR '')'' \<in> set (x # xs)" by (rule conv_paren)
  with x Cons show ?thesis by (simp add: url_ok_def)
qed

lemma tail_ok_conv: "tail_ok (convertRelativeImageUrls resolve t) \<Longrightarrow> tail_ok t"
proof (induction t)
  case Nil
  then show ?case by (simp add: conv_Nil)
next
  case (Cons c cs)
  show ?case
  proof (cases "match_items False imagePattern (c # cs)")
    case (Some ps)
    then obtain t' where "c # cs = ''!['' @ t'" and "tail_ok t'"
      using imagePattern_iff [of "c # cs"] by auto
    then show ?thesis by auto
  next
    case None
    then have step: "convertRelativeImageUrls resolve (c # cs) =
                       c # convertRelativeImageUrls resolve cs"
      by (rule conv_no_match)
    show ?thesis
    proof (cases "c = CHR '']''")
      case False
      with Cons.prems step have "tail_ok (convertRelativeImageUrls resolve cs)" by simp
      with Cons.IH False show ?thesis by simp
    next
      case True
      with Cons.prems step obtain t'' where
        after: "convertRelativeImageUrls resolve cs = CHR ''('' # t''" and ok: "url_ok t''"
        by (auto split: list.splits)
      then obtain x xs where cs: "cs = x # xs" by (cases cs) (auto simp: conv_Nil)
      from conv_keeps_head [of resolve x xs] after cs have x: "x = CHR ''(''" by auto
      then have "convertRelativeImageUrls resolve (x # xs) =
                   x # convertRelativeImageUrls resolve xs"
        by (intro conv_other_start) simp
      with after cs x have "t'' = convertRelativeImageUrls resolve xs" by simp
      with ok have "url_ok xs" using url_ok_conv by blast
      with True cs x show ?thesis by simp
    qed
  qed
qed

lemma no_new_match:
  assumes "match_items False imagePattern (c # cs) = None"
  shows "match_items False imagePattern (c # convertRelativeImageUrls resolve cs) = None"
proof (rule ccontr)
  assume "match_items False imagePattern (c # convertRelativeImageUrls resolve cs) \<noteq> None"
  then obtain t where s: "c # convertRelativeImageUrls resolve cs = ''!['' @ t" and t: "tail_ok t"
    using imagePattern_iff [of "c # convertRelativeImageUrls resolve cs"] by auto
  then have c: "c = CHR ''!''" and after: "convertRelativeImageUrls resolve cs = CHR ''['' # t"
    by simp_all
  then obtain x xs where cs: "cs = x # xs" by (cases cs) (auto simp: conv_Nil)
  from conv_keeps_head [of resolve x xs] after cs have x: "x = CHR ''[''" by auto
  then have "convertRelativeImageUrls resolve (x # xs) =
               x # convertRelativeImageUrls resolve xs"
    by (intro conv_other_start) simp
  with after cs x have "t = convertRelativeImageUrls resolve xs" by simp
  with t have "tail_ok xs" using tail_ok_conv by blast
  with c cs x have "\<exists>t. c # cs = ''!['' @ t \<and> tail_ok t" by simp
  then have "match_items False imagePattern (c # cs) \<noteq> None"
    by (simp only: imagePattern_iff)
  with assms show False by simp
qed

lemma absolute_image_pieces:
  "absolute_image resolve [''!['', a, '']('', u, '')''] =
     (if is_kept u then ''!['' @ a @ '']('' @ u @ '')''
      else case resolve u of Some x \<Rightarrow> ''!['' @ a @ '']('' @ x @ '')''
           | None \<Rightarrow> ''!['' @ a @ '']('' @ u @ '')'')"
  by (simp add: absolute_image_def Let_def split: option.splits)

lemma absolute_image_stable:
  assumes safe: "\<forall>x. \<not> is_kept u \<and> resolve u = Some x \<longrightarrow>
             x \<noteq> [] \<and> CHR '')'' \<notin> set x \<and>
             (is_kept x \<or> resolve x = Some x \<or> resolve x = None)"
      and u: "CHR '')'' \<notin> set u" "u \<noteq> []"
  shows "\<exists>v. v \<noteq> [] \<and> CHR '')'' \<notin> set v \<and>
             absolute_image resolve [''!['', a, '']('', u, '')''] = ''!['' @ a @ '']('' @ v @ '')'' \<and>
             absolute_image resolve [''!['', a, '']('', v, '')''] = ''!['' @ a @ '']('' @ v @ '')''"
proof (cases "is_kept u")
  case True
  then have "absolute_image resolve [''!['', a, '']('', u, '')''] = ''!['' @ a @ '']('' @ u @ '')''"
    by (simp only: absolute_image_pieces if_True)
  with u show ?thesis by blast
next
  case False
  show ?thesis
  proof (cases "resolve u")
    case None
    with False have
      "absolute_image resolve [''!['', a, '']('', u, '')''] = ''!['' @ a @ '']('' @ u @ '')''"
      by (simp only: absolute_image_pieces if_False option.case)
    with u show ?thesis by blast
  next
    case (Some x)
    from safe have "\<not> is_kept u \<and> resolve u = Some x \<longrightarrow>
             x \<noteq> [] \<and> CHR '')'' \<notin> set x \<and>
             (is_kept x \<or> resolve x = Some x \<or> resolve x = None)"
      by (elim allE)
    with False Some have x: "x \<noteq> []" "CHR '')'' \<notin> set x"
      and again: "is_kept x \<or> resolve x = Some x \<or> resolve x = None"
      by simp_all
    from again have second:
      "absolute_image resolve [''!['', a, '']('', x, '')''] = ''!['' @ a @ '']('' @ x @ '')''"
    proof (elim disjE)
      assume "is_kept x"
      then show ?thesis by (simp only: absolute_image_pieces if_True)
    next
      assume r: "resolve x = Some x"
      show ?thesis by (cases "is_kept x") (simp_all only: absolute_image_pieces r if_True if_False option.case)
    next
      assume r: "resolve x = None"
      show ?thesis by (cases "is_kept x") (simp_all only: absolute_image_pieces r if_True if_False option.case)
    qed
    from False Some have first:
      "absolute_image resolve [''!['', a, '']('', u, '')''] = ''!['' @ a @ '']('' @ x @ '')''"
      by (simp only: absolute_image_pieces if_False option.case)
    from x first second show ?thesis by blast
  qed
qed

text \<open>The image references of a string, along the scan of the pass.\<close>

lemma image_refs_no_match:
  "match_items False imagePattern (c # cs) = None \<Longrightarrow> image_refs (c # cs) = image_refs cs"
  by (simp add: image_refs_def)

lemma image_refs_match:
  assumes "CHR '']'' \<notin> set a" and "CHR '')'' \<notin> set u" and "u \<noteq> []"
  shows "image_refs (''!['' @ a @ '']('' @ u @ '')'' @ r) = u # image_refs r"
proof -
  let ?ps = "[''!['', a, '']('', u, '')'']"
  have m: "match_items False imagePattern (CHR ''!'' # ''['' @ a @ '']('' @ u @ '')'' @ r) = Some ?ps"
    using imagePattern_match [OF assms, of r] by simp
  let ?x = "''['' @ a @ '']('' @ u @ '')''"
  have "length (concat ?ps) - 1 = length ?x" by simp
  moreover have "drop (length ?x) (?x @ r) = r" by (metis append_eq_conv_conj)
  ultimately have "drop (length (concat ?ps) - 1) (''['' @ a @ '']('' @ u @ '')'' @ r) = r"
    by (simp only: append_assoc)
  then have "regex_matches False imagePattern (CHR ''!'' # ''['' @ a @ '']('' @ u @ '')'' @ r) =
               ?ps # regex_matches False imagePattern r"
    by (simp only: regex_matches.simps m option.case)
  then show ?thesis by (simp add: image_refs_def)
qed

text \<open>
  C8, amended. The pass is idempotent on a markdown string, provided every address the
  platform returns for an image reference of the string that the pass resolves is not
  empty, contains no \<open>)\<close>, and is itself left alone by the pass: it starts with
  \<open>http://\<close>, \<open>https://\<close>, \<open>data:\<close> or \<open>//\<close>, or it resolves to itself, or it does
  not resolve.
\<close>

theorem relative_pass_idempotent:
  assumes "\<forall>u \<in> set (image_refs markdown). \<forall>x. \<not> is_kept u \<and> resolve u = Some x \<longrightarrow>
             x \<noteq> [] \<and> CHR '')'' \<notin> set x \<and>
             (is_kept x \<or> resolve x = Some x \<or> resolve x = None)"
  shows "convertRelativeImageUrls resolve (convertRelativeImageUrls resolve markdown) =
         convertRelativeImageUrls resolve markdown"
  using assms
proof (induction markdown rule: length_induct)
  case (1 s)
  note safe = "1.prems"
  show ?case
  proof (cases s)
    case Nil
    then show ?thesis by (simp add: conv_Nil)
  next
    case (Cons c cs)
    show ?thesis
    proof (cases "match_items False imagePattern (c # cs)")
      case None
      have shorter: "length cs < length s" using Cons by simp
      have "image_refs cs = image_refs s" using Cons image_refs_no_match [OF None] by simp
      with safe have safe': "\<forall>u \<in> set (image_refs cs). \<forall>x. \<not> is_kept u \<and> resolve u = Some x \<longrightarrow>
             x \<noteq> [] \<and> CHR '')'' \<notin> set x \<and>
             (is_kept x \<or> resolve x = Some x \<or> resolve x = None)" by simp
      have "convertRelativeImageUrls resolve (convertRelativeImageUrls resolve (c # cs)) =
            convertRelativeImageUrls resolve (c # convertRelativeImageUrls resolve cs)"
        by (simp only: conv_no_match [OF None])
      also have "\<dots> = c # convertRelativeImageUrls resolve (convertRelativeImageUrls resolve cs)"
        by (rule conv_no_match [OF no_new_match [OF None]])
      also have "\<dots> = c # convertRelativeImageUrls resolve cs"
        using "1.IH" shorter safe' by simp
      also have "\<dots> = convertRelativeImageUrls resolve (c # cs)"
        by (simp only: conv_no_match [OF None])
      finally show ?thesis using Cons by simp
    next
      case (Some ps)
      then obtain t where st: "c # cs = ''!['' @ t" and "tail_ok t"
        using imagePattern_iff [of "c # cs"] by auto
      then obtain a u r where d: "t = a @ '']('' @ u @ '')'' @ r" "CHR '']'' \<notin> set a"
        "CHR '')'' \<notin> set u" "u \<noteq> []" unfolding tail_ok_iff by blast
      from st d(1) Cons have s: "s = ''!['' @ a @ '']('' @ u @ '')'' @ r" by simp
      then have shorter: "length r < length s" by simp
      have refs: "image_refs s = u # image_refs r"
        unfolding s by (rule image_refs_match [OF d(2,3,4)])
      from safe refs have here: "\<forall>x. \<not> is_kept u \<and> resolve u = Some x \<longrightarrow>
             x \<noteq> [] \<and> CHR '')'' \<notin> set x \<and>
             (is_kept x \<or> resolve x = Some x \<or> resolve x = None)" by simp
      from safe refs have safe': "\<forall>u \<in> set (image_refs r). \<forall>x. \<not> is_kept u \<and> resolve u = Some x \<longrightarrow>
             x \<noteq> [] \<and> CHR '')'' \<notin> set x \<and>
             (is_kept x \<or> resolve x = Some x \<or> resolve x = None)" by simp
      from absolute_image_stable [OF here d(3,4), of a] obtain v where
        v: "v \<noteq> []" "CHR '')'' \<notin> set v"
        and first: "absolute_image resolve [''!['', a, '']('', u, '')''] =
                      ''!['' @ a @ '']('' @ v @ '')''"
        and second: "absolute_image resolve [''!['', a, '']('', v, '')''] =
                      ''!['' @ a @ '']('' @ v @ '')''"
        by blast
      have once: "convertRelativeImageUrls resolve s =
                  ''!['' @ a @ '']('' @ v @ '')'' @ convertRelativeImageUrls resolve r"
        unfolding s using conv_match [OF d(2,3,4), of resolve r] first by simp
      have "convertRelativeImageUrls resolve
              (''!['' @ a @ '']('' @ v @ '')'' @ convertRelativeImageUrls resolve r) =
            ''!['' @ a @ '']('' @ v @ '')'' @
            convertRelativeImageUrls resolve (convertRelativeImageUrls resolve r)"
        using conv_match [OF d(2) v(2) v(1), of resolve "convertRelativeImageUrls resolve r"]
          second by simp
      also have "\<dots> = ''!['' @ a @ '']('' @ v @ '')'' @ convertRelativeImageUrls resolve r"
        using "1.IH" shorter safe' by simp
      finally show ?thesis unfolding once .
    qed
  qed
qed

lemmas relative_defs =
  convertRelativeImageUrls_def imagePattern_def absolute_image_def is_kept_def lit_match_def
  Let_def

text \<open>
  On a page whose address contains \<open>)\<close>, a fragment reference resolves to an address
  with \<open>)\<close> in it. The second pass then ends its match at that \<open>)\<close> and finds a new
  image reference in what is left of the fragment.
\<close>

theorem relative_pass_counterexample:
  "convertRelativeImageUrls wiki_resolve ''![a](#![b](c)'' =
     ''![a](https://w.example/wiki/Foo_(bar)#![b](c)'' \<and>
   convertRelativeImageUrls wiki_resolve (convertRelativeImageUrls wiki_resolve ''![a](#![b](c)'') =
     ''![a](https://w.example/wiki/Foo_(bar)#![b](https://w.example/wiki/c)''"
proof -
  have once: "convertRelativeImageUrls wiki_resolve ''![a](#![b](c)'' =
     ''![a](https://w.example/wiki/Foo_(bar)#![b](c)''"
    by (simp add: relative_defs wiki_resolve_def)
  have "convertRelativeImageUrls wiki_resolve ''![a](https://w.example/wiki/Foo_(bar)#![b](c)'' =
     ''![a](https://w.example/wiki/Foo_(bar)#![b](https://w.example/wiki/c)''"
    by (simp add: relative_defs wiki_resolve_def)
  with once show ?thesis by simp
qed

theorem relative_pass_idempotent_witness:
  "image_refs ''see ![x](img/a.png), ![y](http://b/c.png) and ![z](ftp://files.example/b.png)'' =
     [''img/a.png'', ''http://b/c.png'', ''ftp://files.example/b.png''] \<and>
   convertRelativeImageUrls site_resolve
     ''see ![x](img/a.png), ![y](http://b/c.png) and ![z](ftp://files.example/b.png)'' =
     ''see ![x](https://site.example/docs/img/a.png), ![y](http://b/c.png) and ![z](ftp://files.example/b.png)'' \<and>
   convertRelativeImageUrls site_resolve
     (convertRelativeImageUrls site_resolve
        ''see ![x](img/a.png), ![y](http://b/c.png) and ![z](ftp://files.example/b.png)'') =
     ''see ![x](https://site.example/docs/img/a.png), ![y](http://b/c.png) and ![z](ftp://files.example/b.png)''"
proof -
  let ?m = "''see ![x](img/a.png), ![y](http://b/c.png) and ![z](ftp://files.example/b.png)''"
  have refs: "image_refs ?m = [''img/a.png'', ''http://b/c.png'', ''ftp://files.example/b.png'']"
    by (simp add: image_refs_def imagePattern_def lit_match_def)
  have safe: "\<forall>u \<in> set (image_refs ?m). \<forall>x. \<not> is_kept u \<and> site_resolve u = Some x \<longrightarrow>
             x \<noteq> [] \<and> CHR '')'' \<notin> set x \<and>
             (is_kept x \<or> site_resolve x = Some x \<or> site_resolve x = None)"
    unfolding refs by (simp add: site_resolve_def is_kept_def)
  have once: "convertRelativeImageUrls site_resolve ?m =
     ''see ![x](https://site.example/docs/img/a.png), ![y](http://b/c.png) and ![z](ftp://files.example/b.png)''"
    by (simp add: relative_defs site_resolve_def)
  from relative_pass_idempotent [OF safe] refs once show ?thesis by simp
qed

end
